theory Spec2Isabelle
  imports Complex_Main "HOL-Library.Stream"
begin

section \<open>Constants and enumerations of defs.h\<close>

text \<open>
  The C enumerations are integers in the program: an \<open>EvidenceType\<close> is used as an array
  index, compared with \<open>>=\<close> and assigned from \<open>randInt\<close>. They are modelled as \<open>int\<close> with
  the enumerators as named constants, so that every value a C enum object can hold is an
  input of the model.
\<close>

definition BOREDOM_MAX :: int where [simp]: "BOREDOM_MAX = 100"
definition NUM_HUNTERS :: int where [simp]: "NUM_HUNTERS = 4"
definition FEAR_MAX :: int where [simp]: "FEAR_MAX = 10"
definition MAX_EV :: int where [simp]: "MAX_EV = 3"

type_synonym EvidenceType = int

definition EMF :: EvidenceType where [simp]: "EMF = 0"
definition TEMPERATURE :: EvidenceType where [simp]: "TEMPERATURE = 1"
definition FINGERPRINTS :: EvidenceType where [simp]: "FINGERPRINTS = 2"
definition SOUND :: EvidenceType where [simp]: "SOUND = 3"
definition EV_COUNT :: EvidenceType where [simp]: "EV_COUNT = 4"
definition EV_UNKNOWN :: EvidenceType where [simp]: "EV_UNKNOWN = 5"

datatype GhostClass = POLTERGEIST | BANSHEE | BULLIES | PHANTOM | GHOST_COUNT | GH_UNKNOWN

datatype LoggerDetails =
  LOG_FEAR | LOG_BORED | LOG_EVIDENCE | LOG_SUFFICIENT | LOG_INSUFFICIENT | LOG_UNKNOWN

text \<open>
  Everything the program prints (\<open>printf\<close>, \<open>fprintf(stderr, ...)\<close> and the \<open>l_...\<close> logger
  calls) is an \<open>output\<close> value; a function that prints returns the list of its outputs in
  the order printed.
\<close>

datatype "output" =
    Err_collect_invalid_type EvidenceType
  | Err_collect_full
  | Err_collect_already EvidenceType
  | Out_collected EvidenceType int
  | Warn_invalid_evidence EvidenceType
  | Err_invalid_room_or_list
  | Warn_decrement_below_zero
  | Out_hunter_exited string
  | Out_failed_to_add
  | Err_relocate_hunter_invalid
  | Err_relocate_hunter_no_target
  | Err_reposition_ghost_invalid
  | Err_reposition_ghost_no_target
  | Err_hunter_array_full
  | Err_assign_invalid
  | Err_assign_too_many
  | L_hunterMove string string
  | L_hunterCollect string EvidenceType string
  | L_hunterReview string LoggerDetails
  | Out_banner
  | Out_no_hunters_left
  | Out_fear_level string int
  | Out_boredom_level string int
  | Out_ghost_boredom int
  | Out_not_enough_evidence
  | Out_correctly_identified string
  | Out_incorrect_ghost
  | Out_ghost_won
  | Out_hunters_won
  | Out_ghost_left

section \<open>The evidence array (evidence.c)\<close>

text \<open>
  \<open>struct EvidenceArray\<close>: the heap block \<open>evidence\<close> (its cells, one per unit of the
  capacity it was allocated with), \<open>size\<close> and \<open>capacity\<close> (the fields \<open>size_ea\<close> and
  \<open>capacity_ea\<close>). The semaphore serialises the calls; the model is the sequential
  behaviour of one call between \<open>sem_wait\<close> and \<open>sem_post\<close>, and the semaphore calls are
  taken to succeed. A parameter that points to an array, a hunter, a ghost or the house
  is modelled by the object it points to, so the leading guard of a function against a
  NULL argument of that kind (print an error, return) has no branch here; a pointer to a
  room can be NULL in the model.
\<close>

record EvidenceArray =
  evidence :: "EvidenceType list"
  size_ea :: int
  capacity_ea :: int

text \<open>
  \<open>initEvidenceArray\<close>: \<open>block\<close> is the content of the block \<open>malloc\<close> returns (C leaves it
  indeterminate, so it is a parameter and no value is invented for it); allocation and
  \<open>sem_init\<close> are taken to succeed.
\<close>

definition initEvidenceArray :: "int \<Rightarrow> EvidenceType list \<Rightarrow> EvidenceArray" where
  "initEvidenceArray capacity block =
     (if capacity \<le> 0 then \<lparr>evidence = [], size_ea = 0, capacity_ea = 0\<rparr>
      else \<lparr>evidence = block, size_ea = 0, capacity_ea = capacity\<rparr>)"

function isEvidenceCollected_from :: "EvidenceArray \<Rightarrow> EvidenceType \<Rightarrow> int \<Rightarrow> int" where
  "isEvidenceCollected_from evidenceArray ev i =
     (if i < size_ea evidenceArray then
        (if evidence evidenceArray ! nat i = ev then 1
         else isEvidenceCollected_from evidenceArray ev (i + 1))
      else 0)"
  by pat_completeness auto
termination
  by (relation "measure (\<lambda>(a, ev, i). nat (size_ea a - i))") auto

definition isEvidenceCollected :: "EvidenceArray \<Rightarrow> EvidenceType \<Rightarrow> int" where
  "isEvidenceCollected evidenceArray ev = isEvidenceCollected_from evidenceArray ev 0"

text \<open>\<open>collectEv\<close> returns the C return value, the array after the call and what was printed.\<close>

definition collectEv :: "EvidenceArray \<Rightarrow> EvidenceType \<Rightarrow> int \<times> EvidenceArray \<times> output list" where
  "collectEv evidenceArray ev =
     (if ev \<ge> EV_UNKNOWN \<or> ev < EMF then
        (-1, evidenceArray, [Err_collect_invalid_type ev])
      else if size_ea evidenceArray \<ge> MAX_EV then
        (-1, evidenceArray, [Err_collect_full])
      else if isEvidenceCollected evidenceArray ev \<noteq> 0 then
        (-1, evidenceArray, [Err_collect_already ev])
      else
        (1,
         evidenceArray\<lparr>evidence := (evidence evidenceArray)[nat (size_ea evidenceArray) := ev],
                        size_ea := size_ea evidenceArray + 1\<rparr>,
         [Out_collected ev (size_ea evidenceArray + 1)]))"

text \<open>A sequence of calls on the same array, each call seeing the array the previous one left.\<close>

fun collectEv_seq :: "EvidenceArray \<Rightarrow> EvidenceType list \<Rightarrow> EvidenceArray" where
  "collectEv_seq evidenceArray [] = evidenceArray"
| "collectEv_seq evidenceArray (ev # evs) =
     collectEv_seq (fst (snd (collectEv evidenceArray ev))) evs"

text \<open>The kinds the array holds: its cells below \<open>size\<close>.\<close>

definition collected :: "EvidenceArray \<Rightarrow> EvidenceType list" where
  "collected evidenceArray = take (nat (size_ea evidenceArray)) (evidence evidenceArray)"

section \<open>Random numbers (utils.c)\<close>

text \<open>
  \<open>randFloat\<close> scales a draw \<open>random = rand_r(&seed) / RAND_MAX\<close>, a number of the closed
  interval from 0 to 1, to \<open>min + random * (max - min)\<close>; \<open>randInt\<close> casts that to \<open>int\<close>,
  which truncates towards zero. The generator is the injected capability: the draw is a
  parameter of the model, a rational, and the arithmetic on it is exact (the rounding of
  single precision is not modelled). A thread's generator is the stream of its draws.
\<close>

definition randFloat :: "rat \<Rightarrow> rat \<Rightarrow> rat \<Rightarrow> rat" where
  "randFloat mn mx random = (let diff = mx - mn; r = random * diff in mn + r)"

definition int_cast :: "rat \<Rightarrow> int" where
  "int_cast x = (if x \<ge> 0 then \<lfloor>x\<rfloor> else \<lceil>x\<rceil>)"

definition randInt :: "int \<Rightarrow> int \<Rightarrow> rat \<Rightarrow> int" where
  "randInt mn mx random = int_cast (randFloat (of_int mn) (of_int mx) random)"

definition getRandomRoomIndex :: "int \<Rightarrow> rat \<Rightarrow> int" where
  "getRandomRoomIndex roomCount random = randInt 0 (roomCount - 1) random"

section \<open>Hunters, rooms, ghost and house (defs.h)\<close>

text \<open>
  A \<open>RoomType*\<close> is the address of a room, or NULL (\<open>None\<close>); the rooms live in a heap
  from addresses to \<open>Room\<close> objects. A \<open>RoomList\<close> is its chain of nodes, as the list of the
  rooms they point to (\<open>addRoom\<close> keeps its \<open>size\<close> field equal to the number of nodes); a
  room that was never connected has \<open>roomlist = NULL\<close>. An \<open>EvidenceList\<close> is the list of
  the evidence in its nodes. A \<open>HunterArray\<close> holds copies of hunter structs: \<open>hunter\<close> is
  the list of its cells below \<open>size\<close>, so \<open>size\<close> is the length of that list. The fields
  \<open>evidenceArray\<close> and \<open>thread\<close> of a hunter and \<open>ghost\<close> of a room are read by none of the
  functions below and are left out.
\<close>

type_synonym RoomPtr = "nat option"

record Hunter =
  name :: string
  equipment :: EvidenceType
  fear :: int
  boredom :: int
  room :: RoomPtr

record HunterArray =
  hunter :: "Hunter list"
  capacity_ha :: int

record Room =
  name_r :: string
  evidencelist :: "EvidenceType list option"
  hunterArray_r :: HunterArray
  roomlist :: "nat list option"

record Ghost =
  room_g :: RoomPtr
  ghostType :: GhostClass
  boredomTime :: int

record House =
  rooms :: "nat list"
  hunterArray :: HunterArray
  evidenceArray :: EvidenceArray
  hunterCount :: int

text \<open>
  The state the threads share: the house (with the hunters, which a thread addresses by
  their index in \<open>house->hunterArray->hunter\<close>), the ghost, the rooms and the
  \<open>gameOver\<close> flag, together with everything printed so far.
\<close>

record World =
  house :: House
  ghost :: Ghost
  heap :: "nat \<Rightarrow> Room"
  gameOver :: int
  printed :: "output list"

text \<open>
  How a call ends: it returns, it ends the calling thread (\<open>pthread_exit\<close>), or it
  dereferences NULL.
\<close>

datatype flow = Returned | Thread_exited | Segfault

definition size_ha :: "HunterArray \<Rightarrow> int" where
  "size_ha arr = int (length (hunter arr))"

definition print :: "output list \<Rightarrow> World \<Rightarrow> World" where
  "print outs w = w\<lparr>printed := printed w @ outs\<rparr>"

definition hunter_at :: "World \<Rightarrow> nat \<Rightarrow> Hunter" where
  "hunter_at w i = hunter (hunterArray (house w)) ! i"

definition set_hunter :: "nat \<Rightarrow> Hunter \<Rightarrow> World \<Rightarrow> World" where
  "set_hunter i h w =
     w\<lparr>house := (house w)\<lparr>hunterArray :=
        (hunterArray (house w))\<lparr>hunter := (hunter (hunterArray (house w)))[i := h]\<rparr>\<rparr>\<rparr>"

definition set_roster :: "nat \<Rightarrow> HunterArray \<Rightarrow> World \<Rightarrow> World" where
  "set_roster r arr w = w\<lparr>heap := (heap w)(r := (heap w r)\<lparr>hunterArray_r := arr\<rparr>)\<rparr>"

section \<open>Rooms and movement (utils.c, hunter.c)\<close>

text \<open>
  \<open>getRoomAtIndex\<close> and the loop of \<open>moveToRandomRoomGhost\<close> walk the chain:
  \<open>for (i = 0; i < index && current; i++) current = current->next\<close>. \<open>walk\<close> returns the
  chain from the node where the loop stops.
\<close>

fun walk :: "nat list \<Rightarrow> int \<Rightarrow> int \<Rightarrow> nat list" where
  "walk [] i index = []"
| "walk (node # nodes) i index = (if i < index then walk nodes (i + 1) index else node # nodes)"

definition getRoomAtIndex :: "nat list \<Rightarrow> int \<Rightarrow> RoomPtr" where
  "getRoomAtIndex roomList index =
     (case walk roomList 0 index of [] \<Rightarrow> None | node # _ \<Rightarrow> Some node)"

definition moveToRandomRoomGhost :: "Ghost \<Rightarrow> (nat \<Rightarrow> Room) \<Rightarrow> rat \<Rightarrow> Ghost \<times> output list" where
  "moveToRandomRoomGhost g rms random =
     (case room_g g of
        None \<Rightarrow> (g, [Err_reposition_ghost_invalid])
      | Some r \<Rightarrow>
          (case roomlist (rms r) of
             None \<Rightarrow> (g, [Err_reposition_ghost_invalid])
           | Some roomList \<Rightarrow>
               (let targetIndex = randInt 0 (int (length roomList) - 1) random in
                case walk roomList 0 targetIndex of
                  node # _ \<Rightarrow> (g\<lparr>room_g := Some node\<rparr>, [])
                | [] \<Rightarrow> (g, [Err_reposition_ghost_no_target]))))"

fun removeHunter_cells :: "Hunter list \<Rightarrow> string \<Rightarrow> Hunter list" where
  "removeHunter_cells [] nm = []"
| "removeHunter_cells (h # hs) nm = (if name h = nm then hs else h # removeHunter_cells hs nm)"

definition removeHunter :: "HunterArray \<Rightarrow> Hunter \<Rightarrow> HunterArray" where
  "removeHunter hunters_list h = hunters_list\<lparr>hunter := removeHunter_cells (hunter hunters_list) (name h)\<rparr>"

definition addHunter :: "HunterArray \<Rightarrow> Hunter \<Rightarrow> int \<times> HunterArray \<times> output list" where
  "addHunter arr newHunter =
     (if size_ha arr \<ge> capacity_ha arr then (-1, arr, [Err_hunter_array_full])
      else (0, arr\<lparr>hunter := hunter arr @ [newHunter]\<rparr>, []))"

text \<open>
  \<open>updateHunterLocation\<close>, for the hunter at index \<open>i\<close> standing in room \<open>old\<close>: leave the
  roster of \<open>old\<close>, set \<open>hunter->room\<close>, join the roster of \<open>newRoom\<close> with a copy of the
  hunter as it is then.
\<close>

definition updateHunterLocation :: "nat \<Rightarrow> nat \<Rightarrow> nat \<Rightarrow> World \<Rightarrow> World" where
  "updateHunterLocation i old newRoom w =
     (let w1 = set_roster old (removeHunter (hunterArray_r (heap w old)) (hunter_at w i)) w;
          w2 = set_hunter i ((hunter_at w1 i)\<lparr>room := Some newRoom\<rparr>) w1;
          (rc, roster, outs) = addHunter (hunterArray_r (heap w2 newRoom)) (hunter_at w2 i)
      in print outs (set_roster newRoom roster w2))"

definition moveToRandomRoomHunter :: "nat \<Rightarrow> rat stream \<Rightarrow> World \<Rightarrow> World \<times> flow \<times> rat stream" where
  "moveToRandomRoomHunter i rnd w =
     (case room (hunter_at w i) of
        None \<Rightarrow> (print [Err_relocate_hunter_invalid] w, Returned, rnd)
      | Some old \<Rightarrow>
          (case roomlist (heap w old) of
             None \<Rightarrow> (w, Segfault, rnd)
           | Some roomList \<Rightarrow>
               (let targetRoomIndex = getRandomRoomIndex (int (length roomList)) (shd rnd) in
                case getRoomAtIndex roomList targetRoomIndex of
                  Some newRoom \<Rightarrow> (updateHunterLocation i old newRoom w, Returned, stl rnd)
                | None \<Rightarrow> (print [Err_relocate_hunter_no_target] w, Returned, stl rnd))))"

section \<open>Evidence in a room and in the shared array (evidence.c, hunter.c)\<close>

text \<open>
  \<open>doesEvidenceExist\<close> reads the room through its pointer and walks the evidence list up
  to the first node that equals the equipment.
\<close>

fun doesEvidenceExist_nodes :: "EvidenceType list \<Rightarrow> EvidenceType \<Rightarrow> EvidenceType" where
  "doesEvidenceExist_nodes [] hunterEquipment = EV_UNKNOWN"
| "doesEvidenceExist_nodes (node # nodes) hunterEquipment =
     (if node = hunterEquipment then node else doesEvidenceExist_nodes nodes hunterEquipment)"

definition doesEvidenceExist :: "(nat \<Rightarrow> Room) \<Rightarrow> RoomPtr \<Rightarrow> EvidenceType \<Rightarrow> EvidenceType \<times> output list" where
  "doesEvidenceExist rms rp hunterEquipment =
     (case rp of
        None \<Rightarrow> (EV_UNKNOWN, [Err_invalid_room_or_list])
      | Some r \<Rightarrow>
          (case evidencelist (rms r) of
             None \<Rightarrow> (EV_UNKNOWN, [Err_invalid_room_or_list])
           | Some nodes \<Rightarrow> (doesEvidenceExist_nodes nodes hunterEquipment, [])))"

text \<open>
  \<open>isSufficientEvidence\<close>: the first loop counts into \<open>int evidenceOccurrence[MAX_EV]\<close>,
  the second counts the cells that are positive.
\<close>

function isSufficientEvidence_tally ::
  "EvidenceArray \<Rightarrow> int \<Rightarrow> int list \<Rightarrow> output list \<Rightarrow> int list \<times> output list" where
  "isSufficientEvidence_tally sharedEvidence i evidenceOccurrence outs =
     (if i < size_ea sharedEvidence then
        (let evType = evidence sharedEvidence ! nat i in
         if evType \<ge> 0 \<and> evType < MAX_EV then
           isSufficientEvidence_tally sharedEvidence (i + 1)
             (evidenceOccurrence[nat evType := evidenceOccurrence ! nat evType + 1]) outs
         else
           isSufficientEvidence_tally sharedEvidence (i + 1) evidenceOccurrence
             (outs @ [Warn_invalid_evidence evType]))
      else (evidenceOccurrence, outs))"
  by pat_completeness auto
termination
  by (relation "measure (\<lambda>(a, i, occ, outs). nat (size_ea a - i))") auto

fun isSufficientEvidence_unique :: "int list \<Rightarrow> int \<Rightarrow> int" where
  "isSufficientEvidence_unique [] uniqueEvidenceTypes = uniqueEvidenceTypes"
| "isSufficientEvidence_unique (cell # cells) uniqueEvidenceTypes =
     isSufficientEvidence_unique cells
       (if cell > 0 then uniqueEvidenceTypes + 1 else uniqueEvidenceTypes)"

definition isSufficientEvidence :: "EvidenceArray \<Rightarrow> int \<times> output list" where
  "isSufficientEvidence sharedEvidence =
     (let (evidenceOccurrence, outs) =
            isSufficientEvidence_tally sharedEvidence 0 (replicate (nat MAX_EV) 0) []
      in (isSufficientEvidence_unique evidenceOccurrence 0, outs))"

definition reviewEvidenceAndExitIfNeeded :: "nat \<Rightarrow> World \<Rightarrow> World \<times> flow" where
  "reviewEvidenceAndExitIfNeeded i w =
     (let (n, outs) = isSufficientEvidence (evidenceArray (house w)) in
      if n \<ge> 3 then (print (outs @ [L_hunterReview (name (hunter_at w i)) LOG_SUFFICIENT]) w, Thread_exited)
      else (print (outs @ [L_hunterReview (name (hunter_at w i)) LOG_INSUFFICIENT]) w, Returned))"

definition addEvidenceAndLog :: "nat \<Rightarrow> EvidenceType \<Rightarrow> World \<Rightarrow> int \<times> World \<times> flow" where
  "addEvidenceAndLog i collectedEv w =
     (let (added, arr, outs) = collectEv (evidenceArray (house w)) collectedEv;
          w1 = print outs (w\<lparr>house := (house w)\<lparr>evidenceArray := arr\<rparr>\<rparr>)
      in if added \<noteq> 0 then
           (case room (hunter_at w1 i) of
              None \<Rightarrow> (added, w1, Segfault)
            | Some r \<Rightarrow>
                (added,
                 print [L_hunterCollect (name (hunter_at w1 i)) collectedEv (name_r (heap w1 r))] w1,
                 Returned))
         else (added, w1, Returned))"

definition collectEvidenceIfNeeded :: "nat \<Rightarrow> World \<Rightarrow> World \<times> flow" where
  "collectEvidenceIfNeeded i w =
     (let (collectedEv, outs) =
            doesEvidenceExist (heap w) (room (hunter_at w i)) (equipment (hunter_at w i));
          w1 = print outs w
      in if collectedEv \<noteq> EV_UNKNOWN then
           (let (added, w2, fl) = addEvidenceAndLog i collectedEv w1 in
            if fl = Segfault then (w2, Segfault)
            else if added = 0 then (print [Out_failed_to_add] w2, Returned)
            else (w2, Returned))
         else (w1, Returned))"

section \<open>One tick of a hunter (hunter.c)\<close>

definition isGhostPresent :: "Ghost \<Rightarrow> Hunter \<Rightarrow> int" where
  "isGhostPresent g h = (if room h = room_g g then 1 else 0)"

definition logHunterExit :: "Hunter \<Rightarrow> output list" where
  "logHunterExit h = [Out_hunter_exited (name h)]"

definition decrementHunterCount :: "House \<Rightarrow> House \<times> output list" where
  "decrementHunterCount hs =
     (if hunterCount hs > 0 then (hs\<lparr>hunterCount := hunterCount hs - 1\<rparr>, [])
      else (hs, [Warn_decrement_below_zero]))"

text \<open>
  \<open>performHunterAction\<close> draws the action with \<open>randInt(0, 3)\<close>; moving draws once more.
  The functions that draw take the thread's stream of draws and return what is left of it.
\<close>

definition performHunterAction :: "nat \<Rightarrow> rat stream \<Rightarrow> World \<Rightarrow> World \<times> flow \<times> rat stream" where
  "performHunterAction i rnd w =
     (let choice = randInt 0 3 (shd rnd); rnd1 = stl rnd in
      if choice = 0 then
        (case moveToRandomRoomHunter i rnd1 w of
           (w1, Segfault, rnd2) \<Rightarrow> (w1, Segfault, rnd2)
         | (w1, _, rnd2) \<Rightarrow>
             (case room (hunter_at w1 i) of
                None \<Rightarrow> (w1, Segfault, rnd2)
              | Some r \<Rightarrow>
                  (print [L_hunterMove (name (hunter_at w1 i)) (name_r (heap w1 r))] w1,
                   Returned, rnd2)))
      else if choice = 1 then
        (case collectEvidenceIfNeeded i w of (w1, fl) \<Rightarrow> (w1, fl, rnd1))
      else if choice = 2 then
        (case reviewEvidenceAndExitIfNeeded i w of (w1, fl) \<Rightarrow> (w1, fl, rnd1))
      else (w, Returned, rnd1))"

text \<open>
  \<open>updateHunterState\<close> for the hunter at index \<open>i\<close>. Its pointers are those of the thread's
  context (\<open>setupThreads\<close>): the ghost, the house, the house's evidence array and the
  shared state, all in the world and none of them NULL, so the guard at its head is not
  taken. When the fear or the boredom is at its maximum after the update, the function
  ends the thread with \<open>pthread_exit\<close> before \<open>performHunterAction\<close>.
\<close>

definition updateHunterState :: "nat \<Rightarrow> rat stream \<Rightarrow> World \<Rightarrow> World \<times> flow \<times> rat stream" where
  "updateHunterState i rnd w =
     (let h = hunter_at w i;
          ghostPresence = isGhostPresent (ghost w) h;
          h1 = (if ghostPresence \<noteq> 0 then
                  h\<lparr>fear := (if fear h < FEAR_MAX then fear h + 1 else FEAR_MAX), boredom := 0\<rparr>
                else
                  h\<lparr>boredom := (if boredom h < BOREDOM_MAX then boredom h + 1 else BOREDOM_MAX)\<rparr>);
          w1 = set_hunter i h1 w
      in if fear h1 \<ge> FEAR_MAX \<or> boredom h1 \<ge> BOREDOM_MAX then
           (let w2 = print (logHunterExit h1) w1;
                (hs, outs) = decrementHunterCount (house w2)
            in (print outs (w2\<lparr>house := hs\<rparr>), Thread_exited, rnd))
         else performHunterAction i rnd w1)"

text \<open>
  The body of the loop of \<open>hunterBehaviour\<close>, entered when the loop condition holds:
  \<open>updateHunterState\<close>, then the test that sets \<open>gameOver\<close> and leaves the loop. The result
  says whether the loop goes on (\<open>Returned\<close>) or the thread is over.
\<close>

definition hunterBehaviour_body :: "nat \<Rightarrow> rat stream \<Rightarrow> World \<Rightarrow> World \<times> flow \<times> rat stream" where
  "hunterBehaviour_body i rnd w =
     (case updateHunterState i rnd w of
        (w1, Returned, rnd1) \<Rightarrow>
          (if hunterCount (house w1) = 0 \<or> size_ea (evidenceArray (house w1)) \<ge> 3
           then (w1\<lparr>gameOver := 1\<rparr>, Thread_exited, rnd1)
           else (w1, Returned, rnd1))
      | (w1, fl, rnd1) \<Rightarrow> (w1, fl, rnd1))"

section \<open>Identifying the ghost and the verdict (evidence.c, utils.c, main.c)\<close>

text \<open>
  \<open>identifyGhostFromEvidence\<close> reads the three cells of its argument and sets
  \<open>int evidenceFlags[4]\<close>.
\<close>

function identifyGhostFromEvidence_flags :: "EvidenceType list \<Rightarrow> int \<Rightarrow> int list \<Rightarrow> int list" where
  "identifyGhostFromEvidence_flags ev i evidenceFlags =
     (if i < 3 then
        (if ev ! nat i \<ge> EMF \<and> ev ! nat i \<le> SOUND then
           identifyGhostFromEvidence_flags ev (i + 1) (evidenceFlags[nat (ev ! nat i) := 1])
         else identifyGhostFromEvidence_flags ev (i + 1) evidenceFlags)
      else evidenceFlags)"
  by pat_completeness auto
termination
  by (relation "measure (\<lambda>(ev, i, fl). nat (3 - i))") auto

definition identifyGhostFromEvidence :: "EvidenceType list \<Rightarrow> GhostClass" where
  "identifyGhostFromEvidence ev =
     (let evidenceFlags = identifyGhostFromEvidence_flags ev 0 (replicate 4 0) in
      if evidenceFlags ! nat EMF \<noteq> 0 \<and> evidenceFlags ! nat TEMPERATURE \<noteq> 0
           \<and> evidenceFlags ! nat FINGERPRINTS \<noteq> 0 then POLTERGEIST
      else if evidenceFlags ! nat EMF \<noteq> 0 \<and> evidenceFlags ! nat TEMPERATURE \<noteq> 0
           \<and> evidenceFlags ! nat SOUND \<noteq> 0 then BANSHEE
      else if evidenceFlags ! nat EMF \<noteq> 0 \<and> evidenceFlags ! nat FINGERPRINTS \<noteq> 0
           \<and> evidenceFlags ! nat SOUND \<noteq> 0 then BULLIES
      else if evidenceFlags ! nat TEMPERATURE \<noteq> 0 \<and> evidenceFlags ! nat FINGERPRINTS \<noteq> 0
           \<and> evidenceFlags ! nat SOUND \<noteq> 0 then PHANTOM
      else GH_UNKNOWN)"

fun ghostToString :: "GhostClass \<Rightarrow> string" where
  "ghostToString BANSHEE = ''Banshee''"
| "ghostToString BULLIES = ''Bullies''"
| "ghostToString PHANTOM = ''Phantom''"
| "ghostToString POLTERGEIST = ''Poltergeist''"
| "ghostToString _ = ''Unknown''"

definition reviewEv :: "EvidenceArray \<Rightarrow> Ghost \<Rightarrow> output list" where
  "reviewEv arr g =
     (if size_ea arr \<noteq> 3 then [Out_not_enough_evidence]
      else
        (let identifiedGhostType = identifyGhostFromEvidence (evidence arr) in
         if identifiedGhostType = ghostType g
         then [Out_correctly_identified (ghostToString identifiedGhostType)]
         else [Out_incorrect_ghost]))"

text \<open>The two loops of \<open>evaluateGameOutcome\<close> over the hunters of the house.\<close>

fun fear_loop :: "Hunter list \<Rightarrow> int \<Rightarrow> int \<times> output list" where
  "fear_loop [] fear_count = (fear_count, [])"
| "fear_loop (h # hs) fear_count =
     (let (n, outs) = fear_loop hs (if fear h \<ge> 100 then fear_count + 1 else fear_count)
      in (n, Out_fear_level (name h) (fear h) # outs))"

fun boredom_loop :: "Hunter list \<Rightarrow> int \<Rightarrow> int \<times> output list" where
  "boredom_loop [] boredom_count_hunter = (boredom_count_hunter, [])"
| "boredom_loop (h # hs) boredom_count_hunter =
     (let (n, outs) =
            boredom_loop hs (if boredom h \<ge> 100 then boredom_count_hunter + 1 else boredom_count_hunter)
      in (n, Out_boredom_level (name h) (boredom h) # outs))"

definition evaluateGameOutcome :: "House \<Rightarrow> Ghost \<Rightarrow> output list" where
  "evaluateGameOutcome hs g =
     (let (fear_count, outs1) =
            (if size_ha (hunterArray hs) = 0 then (NUM_HUNTERS, [Out_no_hunters_left])
             else fear_loop (hunter (hunterArray hs)) 0);
          (boredom_count_hunter, outs2) = boredom_loop (hunter (hunterArray hs)) 0;
          verdict =
            (if fear_count = NUM_HUNTERS \<or> boredom_count_hunter = NUM_HUNTERS then Out_ghost_won
             else if size_ea (evidenceArray hs) = 3 \<and> boredomTime g < 100 then Out_hunters_won
             else Out_ghost_left)
      in [Out_banner] @ outs1 @ outs2 @ [Out_ghost_boredom (boredomTime g)]
           @ reviewEv (evidenceArray hs) g @ [verdict])"

section \<open>Equipment (hunter.c)\<close>

text \<open>
  \<open>assignRandomEquipment\<close>: the \<open>for\<close> loop over the hunters with the \<open>do ... while\<close>
  loop inside, which draws until it finds an index that \<open>assignedEquipment\<close> does not
  mark. Nothing bounds the number of draws, so the loops are a partial function: \<open>None\<close>
  is a run that never leaves them.
\<close>

partial_function (option) assignRandomEquipment_loop ::
  "int \<Rightarrow> int \<Rightarrow> int list \<Rightarrow> Hunter list \<Rightarrow> rat stream \<Rightarrow> (Hunter list \<times> rat stream) option" where
  "assignRandomEquipment_loop i numHunters assignedEquipment hunters rnd =
     (if i < numHunters then
        (if assignedEquipment ! nat (randInt 0 (EV_COUNT - 1) (shd rnd)) \<noteq> 0 then
           assignRandomEquipment_loop i numHunters assignedEquipment hunters (stl rnd)
         else
           assignRandomEquipment_loop (i + 1) numHunters
             (assignedEquipment[nat (randInt 0 (EV_COUNT - 1) (shd rnd)) := 1])
             (hunters[nat i := (hunters ! nat i)\<lparr>equipment := randInt 0 (EV_COUNT - 1) (shd rnd)\<rparr>])
             (stl rnd))
      else Some (hunters, rnd))"

definition assignRandomEquipment ::
  "HunterArray \<Rightarrow> int \<Rightarrow> rat stream \<Rightarrow> (HunterArray \<times> output list \<times> rat stream) option" where
  "assignRandomEquipment hunters numHunters rnd =
     (if numHunters \<le> 0 \<or> size_ha hunters < numHunters then Some (hunters, [Err_assign_invalid], rnd)
      else if numHunters > EV_COUNT then Some (hunters, [Err_assign_too_many], rnd)
      else
        (case assignRandomEquipment_loop 0 numHunters (replicate (nat EV_COUNT) 0) (hunter hunters) rnd of
           None \<Rightarrow> None
         | Some (cells, rnd1) \<Rightarrow> Some (hunters\<lparr>hunter := cells\<rparr>, [], rnd1)))"

section \<open>Invariants and sets used in the statements\<close>

text \<open>
  The arrays the program creates with \<open>initEvidenceArray(..., MAX_EV)\<close> and fills with
  \<open>collectEv\<close> stay in this shape: the size is within the block, and the cells below
  \<open>size\<close> are pairwise different.
\<close>

definition pool_ok :: "EvidenceArray \<Rightarrow> bool" where
  "pool_ok a \<longleftrightarrow> 0 \<le> size_ea a \<and> size_ea a \<le> MAX_EV \<and> length (evidence a) = nat MAX_EV
     \<and> capacity_ea a = MAX_EV \<and> distinct (collected a)"

text \<open>The evidence kinds (\<open>EMF\<close> to \<open>SOUND\<close>) among the cells of an array of evidence.\<close>

definition valid_kinds :: "EvidenceType list \<Rightarrow> EvidenceType set" where
  "valid_kinds ev = {e \<in> set ev. EMF \<le> e \<and> e \<le> SOUND}"

text \<open>
  The state of the loops of \<open>assignRandomEquipment\<close> before hunter \<open>i\<close>: the hunters
  below \<open>i\<close> hold pairwise different kinds, each marked in \<open>assignedEquipment\<close>.
\<close>

definition assigned_ok :: "int \<Rightarrow> int list \<Rightarrow> Hunter list \<Rightarrow> bool" where
  "assigned_ok i a hs \<longleftrightarrow>
     0 \<le> i \<and> nat i \<le> length hs \<and> length a = 4
     \<and> (\<forall>j < nat i. 0 \<le> equipment (hs ! j) \<and> equipment (hs ! j) \<le> 3
                      \<and> a ! nat (equipment (hs ! j)) \<noteq> 0)
     \<and> distinct (map equipment (take (nat i) hs))"

definition only_equipment_differs :: "Hunter list \<Rightarrow> Hunter list \<Rightarrow> bool" where
  "only_equipment_differs hs hs' \<longleftrightarrow>
     length hs' = length hs \<and> (\<forall>j < length hs. hs' ! j = (hs ! j)\<lparr>equipment := equipment (hs' ! j)\<rparr>)"

text \<open>The indices that \<open>assignedEquipment\<close> does not mark yet.\<close>

definition unassigned :: "int list \<Rightarrow> nat set" where
  "unassigned a = {j. j < 4 \<and> a ! j = 0}"

text \<open>\<open>n\<close> calls of \<open>decrementHunterCount\<close> on the same house, one after the other.\<close>

fun decrementHunterCount_times :: "nat \<Rightarrow> House \<Rightarrow> House" where
  "decrementHunterCount_times 0 hs = hs"
| "decrementHunterCount_times (Suc n) hs = decrementHunterCount_times n (fst (decrementHunterCount hs))"

section \<open>Concrete states\<close>

text \<open>
  The hunters as \<open>initializeHunters\<close> leaves them (in the van, at address 0, with
  \<open>EV_UNKNOWN\<close> as equipment), the evidence array and the house as \<open>initHouse\<close> leaves them,
  and a world of two connected rooms in which hunter A, one step from \<open>FEAR_MAX\<close>, shares
  the hallway (address 1) with the ghost.
\<close>

definition four_hunters :: HunterArray where
  "four_hunters =
     \<lparr>hunter = [\<lparr>name = ''A'', equipment = EV_UNKNOWN, fear = 0, boredom = 0, room = Some 0\<rparr>,
                \<lparr>name = ''B'', equipment = EV_UNKNOWN, fear = 0, boredom = 0, room = Some 0\<rparr>,
                \<lparr>name = ''C'', equipment = EV_UNKNOWN, fear = 0, boredom = 0, room = Some 0\<rparr>,
                \<lparr>name = ''D'', equipment = EV_UNKNOWN, fear = 0, boredom = 0, room = Some 0\<rparr>],
      capacity_ha = 4\<rparr>"

definition empty_pool :: EvidenceArray where
  "empty_pool = initEvidenceArray MAX_EV [0, 0, 0]"

definition start_house :: House where
  "start_house = \<lparr>rooms = [0, 1], hunterArray = four_hunters, evidenceArray = empty_pool,
                   hunterCount = NUM_HUNTERS\<rparr>"

definition van :: Room where
  "van = \<lparr>name_r = ''Van'', evidencelist = Some [],
          hunterArray_r =
            \<lparr>hunter = [\<lparr>name = ''B'', equipment = EMF, fear = 0, boredom = 3, room = Some 0\<rparr>,
                       \<lparr>name = ''C'', equipment = TEMPERATURE, fear = 0, boredom = 3, room = Some 0\<rparr>,
                       \<lparr>name = ''D'', equipment = FINGERPRINTS, fear = 0, boredom = 3, room = Some 0\<rparr>],
             capacity_ha = 4\<rparr>,
          roomlist = Some [1]\<rparr>"

definition hallway :: Room where
  "hallway = \<lparr>name_r = ''Hallway'', evidencelist = Some [EMF, SOUND],
              hunterArray_r =
                \<lparr>hunter = [\<lparr>name = ''A'', equipment = SOUND, fear = 0, boredom = 2, room = Some 1\<rparr>],
                 capacity_ha = 4\<rparr>,
              roomlist = Some [0]\<rparr>"

definition haunted_world :: World where
  "haunted_world =
     \<lparr>house =
        \<lparr>rooms = [0, 1],
         hunterArray =
           \<lparr>hunter = [\<lparr>name = ''A'', equipment = SOUND, fear = 9, boredom = 0, room = Some 1\<rparr>,
                      \<lparr>name = ''B'', equipment = EMF, fear = 0, boredom = 3, room = Some 0\<rparr>,
                      \<lparr>name = ''C'', equipment = TEMPERATURE, fear = 0, boredom = 3, room = Some 0\<rparr>,
                      \<lparr>name = ''D'', equipment = FINGERPRINTS, fear = 0, boredom = 3, room = Some 0\<rparr>],
            capacity_ha = 4\<rparr>,
         evidenceArray = empty_pool,
         hunterCount = NUM_HUNTERS\<rparr>,
      ghost = \<lparr>room_g = Some 1, ghostType = BANSHEE, boredomTime = 0\<rparr>,
      heap = undefined(0 := van, 1 := hallway),
      gameOver = 0,
      printed = []\<rparr>"

section \<open>The shared evidence array: capacity and uniqueness\<close>

lemma isEvidenceCollected_from_iff:
  "0 \<le> i \<Longrightarrow> isEvidenceCollected_from a ev i \<noteq> 0
     \<longleftrightarrow> (\<exists>j. i \<le> j \<and> j < size_ea a \<and> evidence a ! nat j = ev)"
proof (induction a ev i rule: isEvidenceCollected_from.induct)
  case (1 a ev i)
  show ?case
  proof (cases "i < size_ea a")
    case False
    then show ?thesis by (subst isEvidenceCollected_from.simps) auto
  next
    case True
    show ?thesis
    proof (cases "evidence a ! nat i = ev")
      case hit: True
      with True "1.prems" show ?thesis
        by (subst isEvidenceCollected_from.simps) auto
    next
      case miss: False
      have ih: "isEvidenceCollected_from a ev (i + 1) \<noteq> 0
          \<longleftrightarrow> (\<exists>j. i + 1 \<le> j \<and> j < size_ea a \<and> evidence a ! nat j = ev)"
        using "1.IH" [OF True miss] "1.prems" by simp
      have "(\<exists>j. i + 1 \<le> j \<and> j < size_ea a \<and> evidence a ! nat j = ev)
          \<longleftrightarrow> (\<exists>j. i \<le> j \<and> j < size_ea a \<and> evidence a ! nat j = ev)"
      proof
        assume "\<exists>j. i + 1 \<le> j \<and> j < size_ea a \<and> evidence a ! nat j = ev"
        then obtain j where "i + 1 \<le> j" "j < size_ea a" "evidence a ! nat j = ev" by blast
        then show "\<exists>j. i \<le> j \<and> j < size_ea a \<and> evidence a ! nat j = ev"
          by (intro exI [of _ j]) simp
      next
        assume "\<exists>j. i \<le> j \<and> j < size_ea a \<and> evidence a ! nat j = ev"
        then obtain j where j: "i \<le> j" "j < size_ea a" "evidence a ! nat j = ev" by blast
        with miss have "j \<noteq> i" by auto
        with j show "\<exists>j. i + 1 \<le> j \<and> j < size_ea a \<and> evidence a ! nat j = ev"
          by (intro exI [of _ j]) simp
      qed
      with ih True miss show ?thesis
        by (subst isEvidenceCollected_from.simps) simp
    qed
  qed
qed

lemma isEvidenceCollected_iff:
  assumes "0 \<le> size_ea a" "nat (size_ea a) \<le> length (evidence a)"
  shows "isEvidenceCollected a ev \<noteq> 0 \<longleftrightarrow> ev \<in> set (collected a)"
proof -
  have "isEvidenceCollected a ev \<noteq> 0 \<longleftrightarrow> (\<exists>j. 0 \<le> j \<and> j < size_ea a \<and> evidence a ! nat j = ev)"
    unfolding isEvidenceCollected_def by (rule isEvidenceCollected_from_iff) simp
  also have "\<dots> \<longleftrightarrow> (\<exists>k < nat (size_ea a). evidence a ! k = ev)"
  proof
    assume "\<exists>j. 0 \<le> j \<and> j < size_ea a \<and> evidence a ! nat j = ev"
    then obtain j where "0 \<le> j" "j < size_ea a" "evidence a ! nat j = ev" by blast
    then show "\<exists>k < nat (size_ea a). evidence a ! k = ev"
      by (intro exI [of _ "nat j"]) auto
  next
    assume "\<exists>k < nat (size_ea a). evidence a ! k = ev"
    then obtain k where "k < nat (size_ea a)" "evidence a ! k = ev" by blast
    then show "\<exists>j. 0 \<le> j \<and> j < size_ea a \<and> evidence a ! nat j = ev"
      by (intro exI [of _ "int k"]) auto
  qed
  also have "\<dots> \<longleftrightarrow> ev \<in> set (collected a)"
    using assms by (auto simp: collected_def in_set_conv_nth)
  finally show ?thesis .
qed

lemma collected_insert:
  assumes "0 \<le> size_ea a" "nat (size_ea a) < length (evidence a)"
  shows "collected (a\<lparr>evidence := (evidence a)[nat (size_ea a) := ev], size_ea := size_ea a + 1\<rparr>)
           = collected a @ [ev]"
proof -
  have "nat (size_ea a + 1) = Suc (nat (size_ea a))" using assms by simp
  then show ?thesis
    using assms by (simp add: collected_def take_Suc_conv_app_nth)
qed

lemma collectEv_cases:
  assumes "pool_ok a"
  shows "collectEv a ev =
     (if ev \<ge> EV_UNKNOWN \<or> ev < EMF then (-1, a, [Err_collect_invalid_type ev])
      else if size_ea a \<ge> MAX_EV then (-1, a, [Err_collect_full])
      else if ev \<in> set (collected a) then (-1, a, [Err_collect_already ev])
      else (1, a\<lparr>evidence := (evidence a)[nat (size_ea a) := ev], size_ea := size_ea a + 1\<rparr>,
            [Out_collected ev (size_ea a + 1)]))"
proof -
  have "isEvidenceCollected a ev \<noteq> 0 \<longleftrightarrow> ev \<in> set (collected a)"
    using assms by (intro isEvidenceCollected_iff) (auto simp: pool_ok_def)
  then show ?thesis by (simp add: collectEv_def)
qed

lemma collectEv_pool_ok:
  assumes "pool_ok a"
  shows "pool_ok (fst (snd (collectEv a ev)))"
proof (cases "ev \<ge> EV_UNKNOWN \<or> ev < EMF \<or> size_ea a \<ge> MAX_EV \<or> ev \<in> set (collected a)")
  case True
  then show ?thesis using assms by (auto simp: collectEv_cases)
next
  case False
  then have lt: "nat (size_ea a) < length (evidence a)" and nn: "0 \<le> size_ea a"
    using assms by (auto simp: pool_ok_def)
  have "collected (a\<lparr>evidence := (evidence a)[nat (size_ea a) := ev], size_ea := size_ea a + 1\<rparr>)
           = collected a @ [ev]"
    by (rule collected_insert [OF nn lt])
  with False assms show ?thesis
    by (auto simp: collectEv_cases pool_ok_def)
qed

lemma collectEv_seq_pool_ok: "pool_ok a \<Longrightarrow> pool_ok (collectEv_seq a evs)"
  by (induction evs arbitrary: a) (simp_all add: collectEv_pool_ok)

lemma initEvidenceArray_pool_ok:
  "length block = nat MAX_EV \<Longrightarrow> pool_ok (initEvidenceArray MAX_EV block)"
  by (simp add: pool_ok_def initEvidenceArray_def collected_def)

text \<open>
  Claim C1. Take the shared evidence array as \<open>initHouse\<close> creates it
  (\<open>initEvidenceArray\<close> with capacity \<open>MAX_EV\<close>, empty) and any sequence \<open>evs\<close> of
  \<open>collectEv\<close> calls on it, with any values. The array they leave holds at most 3 kinds
  and no kind twice. A further call with an evidence kind (\<open>EMF\<close> to \<open>SOUND\<close>) returns -1
  and leaves the array as it is when the array is full or holds the kind already;
  otherwise it stores the kind in the next cell, adds one to the size, keeps the
  capacity and returns 1.
\<close>

theorem collectEv_capacity_and_uniqueness:
  assumes "length block = nat MAX_EV"
  shows "(let pool = collectEv_seq (initEvidenceArray MAX_EV block) evs in
          size_ea pool \<le> 3 \<and> distinct (collected pool)
          \<and> (EMF \<le> ev \<and> ev \<le> SOUND \<longrightarrow>
               (if size_ea pool \<ge> 3 \<or> ev \<in> set (collected pool)
                then fst (collectEv pool ev) = -1 \<and> fst (snd (collectEv pool ev)) = pool
                else fst (collectEv pool ev) = 1
                   \<and> collected (fst (snd (collectEv pool ev))) = collected pool @ [ev]
                   \<and> size_ea (fst (snd (collectEv pool ev))) = size_ea pool + 1
                   \<and> capacity_ea (fst (snd (collectEv pool ev))) = capacity_ea pool)))"
proof -
  define pool where "pool = collectEv_seq (initEvidenceArray MAX_EV block) evs"
  have ok: "pool_ok pool"
    unfolding pool_def using assms
    by (intro collectEv_seq_pool_ok initEvidenceArray_pool_ok)
  then have sz: "size_ea pool \<le> 3" and d: "distinct (collected pool)"
    by (simp_all add: pool_ok_def)
  have ins: "collected (pool\<lparr>evidence := (evidence pool)[nat (size_ea pool) := ev],
                             size_ea := size_ea pool + 1\<rparr>) = collected pool @ [ev]"
    if "size_ea pool < 3"
    using ok that by (intro collected_insert) (auto simp: pool_ok_def)
  have "EMF \<le> ev \<and> ev \<le> SOUND \<longrightarrow>
               (if size_ea pool \<ge> 3 \<or> ev \<in> set (collected pool)
                then fst (collectEv pool ev) = -1 \<and> fst (snd (collectEv pool ev)) = pool
                else fst (collectEv pool ev) = 1
                   \<and> collected (fst (snd (collectEv pool ev))) = collected pool @ [ev]
                   \<and> size_ea (fst (snd (collectEv pool ev))) = size_ea pool + 1
                   \<and> capacity_ea (fst (snd (collectEv pool ev))) = capacity_ea pool)"
    using ins by (auto simp: collectEv_cases [OF ok])
  with sz d show ?thesis unfolding pool_def [symmetric] Let_def by simp
qed

theorem collectEv_capacity_and_uniqueness_witness:
  "length [0, 0, 0 :: int] = nat MAX_EV
   \<and> fst (collectEv (collectEv_seq (initEvidenceArray MAX_EV [0, 0, 0]) [EMF, SOUND, EMF]) TEMPERATURE) = 1
   \<and> fst (collectEv (collectEv_seq (initEvidenceArray MAX_EV [0, 0, 0]) [EMF, SOUND, EMF]) SOUND) = -1"
proof -
  have c: "collected (collectEv_seq (initEvidenceArray MAX_EV [0, 0, 0]) [EMF, SOUND, EMF]) = [0, 3]"
    and s: "size_ea (collectEv_seq (initEvidenceArray MAX_EV [0, 0, 0]) [EMF, SOUND, EMF]) = 2"
    by (simp_all add: collectEv_def initEvidenceArray_def isEvidenceCollected_def
        isEvidenceCollected_from.simps collected_def)
  from collectEv_capacity_and_uniqueness [of "[0, 0, 0]" "[EMF, SOUND, EMF]" TEMPERATURE]
       collectEv_capacity_and_uniqueness [of "[0, 0, 0]" "[EMF, SOUND, EMF]" SOUND]
  show ?thesis unfolding Let_def c s by simp
qed

lemma collectEv_invalid_type:
  "ev \<ge> EV_UNKNOWN \<or> ev < EMF \<Longrightarrow> collectEv a ev = (-1, a, [Err_collect_invalid_type ev])"
  by (simp add: collectEv_def)

text \<open>
  Claim C8 says that \<open>collectEv\<close> rejects every value outside the evidence kinds
  \<open>EMF\<close> to \<open>SOUND\<close> and leaves the array unchanged. The guard of \<open>collectEv\<close> is
  \<open>evidence >= EV_UNKNOWN || evidence < EMF\<close>, so the enumerator \<open>EV_COUNT\<close> (4), which is
  not a kind, passes it: on the empty array the call stores \<open>EV_COUNT\<close> in cell 0, sets
  the size to 1, prints the line of a successful collection and returns 1.
\<close>

theorem collectEv_accepts_EV_COUNT:
  "collectEv (initEvidenceArray MAX_EV [0, 0, 0]) EV_COUNT
     = (1, \<lparr>evidence = [EV_COUNT, 0, 0], size_ea = 1, capacity_ea = 3\<rparr>, [Out_collected EV_COUNT 1])"
  by (simp add: collectEv_def initEvidenceArray_def isEvidenceCollected_def
      isEvidenceCollected_from.simps)

section \<open>Sufficiency of the shared evidence\<close>

text \<open>
  Claim C2 says that \<open>isSufficientEvidence\<close> reports 3 exactly when the array holds 3
  different kinds, for every 3 of the 4 kinds. The function counts into
  \<open>evidenceOccurrence[MAX_EV]\<close> and skips every type that is not below \<open>MAX_EV = 3\<close>, so
  \<open>SOUND = 3\<close> is never counted: on the array that holds \<open>EMF\<close>, \<open>TEMPERATURE\<close> and
  \<open>SOUND\<close> it warns about an invalid type and returns 2, and the review of any hunter
  on that array logs \<open>LOG_INSUFFICIENT\<close> and returns instead of ending the thread. On the
  array that holds \<open>EMF\<close>, \<open>TEMPERATURE\<close> and \<open>FINGERPRINTS\<close> it returns 3.
\<close>

theorem isSufficientEvidence_ignores_SOUND:
  "isSufficientEvidence \<lparr>evidence = [EMF, TEMPERATURE, SOUND], size_ea = 3, capacity_ea = 3\<rparr>
     = (2, [Warn_invalid_evidence SOUND])
   \<and> reviewEvidenceAndExitIfNeeded i
        (w\<lparr>house := (house w)\<lparr>evidenceArray :=
              \<lparr>evidence = [EMF, TEMPERATURE, SOUND], size_ea = 3, capacity_ea = 3\<rparr>\<rparr>\<rparr>)
     = (print [Warn_invalid_evidence SOUND,
               L_hunterReview (name (hunter_at w i)) LOG_INSUFFICIENT]
          (w\<lparr>house := (house w)\<lparr>evidenceArray :=
              \<lparr>evidence = [EMF, TEMPERATURE, SOUND], size_ea = 3, capacity_ea = 3\<rparr>\<rparr>\<rparr>),
        Returned)
   \<and> isSufficientEvidence \<lparr>evidence = [EMF, TEMPERATURE, FINGERPRINTS], size_ea = 3, capacity_ea = 3\<rparr>
     = (3, [])"
proof -
  have a: "isSufficientEvidence \<lparr>evidence = [EMF, TEMPERATURE, SOUND], size_ea = 3, capacity_ea = 3\<rparr>
     = (2, [Warn_invalid_evidence SOUND])"
    by (simp add: isSufficientEvidence_def isSufficientEvidence_tally.simps numeral_eq_Suc)
  have b: "isSufficientEvidence \<lparr>evidence = [EMF, TEMPERATURE, FINGERPRINTS], size_ea = 3, capacity_ea = 3\<rparr>
     = (3, [])"
    by (simp add: isSufficientEvidence_def isSufficientEvidence_tally.simps numeral_eq_Suc)
  show ?thesis
    unfolding reviewEvidenceAndExitIfNeeded_def
    using a b by (simp add: hunter_at_def)
qed

section \<open>Identification of the ghost\<close>

lemma flag_step:
  assumes "length fl = 4" "k < 4"
  shows "(if 0 \<le> a \<and> a \<le> 3 then fl[nat a := (1::int)] else fl) ! k \<noteq> 0
           \<longleftrightarrow> (int k = a \<or> fl ! k \<noteq> 0)"
proof (cases "0 \<le> a \<and> a \<le> 3")
  case True
  then have "nat a < length fl" using assms by linarith
  moreover have "(nat a = k) = (int k = a)" using True by auto
  ultimately show ?thesis using True by (simp add: nth_list_update)
next
  case False
  with assms show ?thesis by auto
qed

lemma flags3:
  "identifyGhostFromEvidence_flags [a, b, c] 0 fl =
     (if 0 \<le> c \<and> c \<le> 3
      then (if 0 \<le> b \<and> b \<le> 3 then (if 0 \<le> a \<and> a \<le> 3 then fl[nat a := 1] else fl)[nat b := 1]
            else (if 0 \<le> a \<and> a \<le> 3 then fl[nat a := 1] else fl))[nat c := 1]
      else (if 0 \<le> b \<and> b \<le> 3 then (if 0 \<le> a \<and> a \<le> 3 then fl[nat a := 1] else fl)[nat b := 1]
            else (if 0 \<le> a \<and> a \<le> 3 then fl[nat a := 1] else fl)))"
  by (simp add: identifyGhostFromEvidence_flags.simps)

lemma flag_set_iff:
  assumes "k < 4"
  shows "identifyGhostFromEvidence_flags [a, b, c] 0 (replicate 4 0) ! k \<noteq> 0
           \<longleftrightarrow> int k \<in> valid_kinds [a, b, c]"
proof -
  define f1 where "f1 = (if 0 \<le> a \<and> a \<le> 3 then (replicate 4 (0::int))[nat a := 1] else replicate 4 0)"
  define f2 where "f2 = (if 0 \<le> b \<and> b \<le> 3 then f1[nat b := 1] else f1)"
  define f3 where "f3 = (if 0 \<le> c \<and> c \<le> 3 then f2[nat c := 1] else f2)"
  have l1: "length f1 = 4" by (simp add: f1_def)
  have l2: "length f2 = 4" by (simp add: f2_def l1)
  have "replicate 4 (0::int) ! k = 0" using assms by simp
  then have s1: "f1 ! k \<noteq> 0 \<longleftrightarrow> int k = a"
    unfolding f1_def using flag_step [of "replicate 4 0" k a] assms by simp
  have s2: "f2 ! k \<noteq> 0 \<longleftrightarrow> int k = b \<or> int k = a"
    unfolding f2_def using flag_step [OF l1 assms, of b] s1 by simp
  have s3: "f3 ! k \<noteq> 0 \<longleftrightarrow> int k = c \<or> int k = b \<or> int k = a"
    unfolding f3_def using flag_step [OF l2 assms, of c] s2 by simp
  have "identifyGhostFromEvidence_flags [a, b, c] 0 (replicate 4 0) = f3"
    unfolding flags3 f3_def f2_def f1_def by simp
  moreover have "int k \<in> valid_kinds [a, b, c] \<longleftrightarrow> int k = c \<or> int k = b \<or> int k = a"
    using assms by (auto simp: valid_kinds_def)
  ultimately show ?thesis using s3 by simp
qed

lemma identify_by_subsets:
  "identifyGhostFromEvidence [a, b, c] =
     (if {0, 1, 2} \<subseteq> valid_kinds [a, b, c] then POLTERGEIST
      else if {0, 1, 3} \<subseteq> valid_kinds [a, b, c] then BANSHEE
      else if {0, 2, 3} \<subseteq> valid_kinds [a, b, c] then BULLIES
      else if {1, 2, 3} \<subseteq> valid_kinds [a, b, c] then PHANTOM
      else GH_UNKNOWN)"
proof -
  have f: "\<And>k. k < 4 \<Longrightarrow> identifyGhostFromEvidence_flags [a, b, c] 0 (replicate 4 0) ! k \<noteq> 0
           \<longleftrightarrow> int k \<in> valid_kinds [a, b, c]"
    by (rule flag_set_iff)
  show ?thesis
    unfolding identifyGhostFromEvidence_def Let_def
    using f [of 0] f [of 1] f [of 2] f [of 3] by simp
qed

lemma three_in_valid_kinds:
  assumes "S \<subseteq> valid_kinds [a, b, c]" "card S = 3"
  shows "valid_kinds [a, b, c] = S"
proof -
  have fin: "finite (valid_kinds [a, b, c])" by (simp add: valid_kinds_def)
  have "valid_kinds [a, b, c] \<subseteq> set [a, b, c]" by (auto simp: valid_kinds_def)
  then have "card (valid_kinds [a, b, c]) \<le> card (set [a, b, c])"
    by (intro card_mono) auto
  also have "\<dots> \<le> length [a, b, c]" by (rule card_length)
  finally have "card (valid_kinds [a, b, c]) \<le> card S" using assms by simp
  with assms fin show ?thesis by (metis card_subset_eq card_mono finite_subset le_antisym)
qed

text \<open>
  Claim C3. For every array \<open>ev\<close> of 3 evidence values, \<open>identifyGhostFromEvidence\<close>
  returns the class whose subset is the set of the valid kinds in \<open>ev\<close>: \<open>POLTERGEIST\<close>
  for EMF, TEMPERATURE, FINGERPRINTS; \<open>BANSHEE\<close> for EMF, TEMPERATURE, SOUND; \<open>BULLIES\<close> for
  EMF, FINGERPRINTS, SOUND; \<open>PHANTOM\<close> for TEMPERATURE, FINGERPRINTS, SOUND. It returns
  \<open>GH_UNKNOWN\<close> when \<open>ev\<close> holds fewer than 3 different valid kinds, and whenever the set
  of its valid kinds is none of the four subsets. The result is a function of \<open>ev\<close>
  alone, so a repeated call on the same input returns the same class.
\<close>

theorem identifyGhostFromEvidence_table:
  assumes "length ev = 3"
  shows "(valid_kinds ev = {EMF, TEMPERATURE, FINGERPRINTS} \<longrightarrow> identifyGhostFromEvidence ev = POLTERGEIST)
       \<and> (valid_kinds ev = {EMF, TEMPERATURE, SOUND} \<longrightarrow> identifyGhostFromEvidence ev = BANSHEE)
       \<and> (valid_kinds ev = {EMF, FINGERPRINTS, SOUND} \<longrightarrow> identifyGhostFromEvidence ev = BULLIES)
       \<and> (valid_kinds ev = {TEMPERATURE, FINGERPRINTS, SOUND} \<longrightarrow> identifyGhostFromEvidence ev = PHANTOM)
       \<and> (card (valid_kinds ev) < 3 \<longrightarrow> identifyGhostFromEvidence ev = GH_UNKNOWN)
       \<and> (valid_kinds ev \<notin> {{EMF, TEMPERATURE, FINGERPRINTS}, {EMF, TEMPERATURE, SOUND},
                             {EMF, FINGERPRINTS, SOUND}, {TEMPERATURE, FINGERPRINTS, SOUND}}
            \<longrightarrow> identifyGhostFromEvidence ev = GH_UNKNOWN)"
proof -
  obtain a b c where ev: "ev = [a, b, c]"
    using assms by (auto simp: numeral_3_eq_3 length_Suc_conv)
  define V where "V = valid_kinds [a, b, c]"
  have eq: "\<And>S. S \<subseteq> V \<Longrightarrow> card S = 3 \<Longrightarrow> V = S"
    unfolding V_def by (rule three_in_valid_kinds)
  have c0: "card {0, 1, 2 :: int} = 3" and c1: "card {0, 1, 3 :: int} = 3"
    and c2: "card {0, 2, 3 :: int} = 3" and c3: "card {1, 2, 3 :: int} = 3" by simp_all
  have id: "identifyGhostFromEvidence ev =
     (if {0, 1, 2} \<subseteq> V then POLTERGEIST
      else if {0, 1, 3} \<subseteq> V then BANSHEE
      else if {0, 2, 3} \<subseteq> V then BULLIES
      else if {1, 2, 3} \<subseteq> V then PHANTOM
      else GH_UNKNOWN)"
    unfolding ev V_def by (rule identify_by_subsets)
  have p: "V = {0, 1, 2} \<Longrightarrow> identifyGhostFromEvidence ev = POLTERGEIST"
    unfolding id by simp
  have b: "V = {0, 1, 3} \<Longrightarrow> identifyGhostFromEvidence ev = BANSHEE"
    unfolding id by simp
  have u: "V = {0, 2, 3} \<Longrightarrow> identifyGhostFromEvidence ev = BULLIES"
    unfolding id by simp
  have h: "V = {1, 2, 3} \<Longrightarrow> identifyGhostFromEvidence ev = PHANTOM"
    unfolding id by simp
  have none: "identifyGhostFromEvidence ev = GH_UNKNOWN"
    if "V \<noteq> {0, 1, 2}" "V \<noteq> {0, 1, 3}" "V \<noteq> {0, 2, 3}" "V \<noteq> {1, 2, 3}"
  proof -
    have "\<not> {0, 1, 2} \<subseteq> V"
    proof
      assume "{0, 1, 2} \<subseteq> V"
      from eq [OF this c0] that(1) show False by contradiction
    qed
    moreover have "\<not> {0, 1, 3} \<subseteq> V"
    proof
      assume "{0, 1, 3} \<subseteq> V"
      from eq [OF this c1] that(2) show False by contradiction
    qed
    moreover have "\<not> {0, 2, 3} \<subseteq> V"
    proof
      assume "{0, 2, 3} \<subseteq> V"
      from eq [OF this c2] that(3) show False by contradiction
    qed
    moreover have "\<not> {1, 2, 3} \<subseteq> V"
    proof
      assume "{1, 2, 3} \<subseteq> V"
      from eq [OF this c3] that(4) show False by contradiction
    qed
    ultimately show ?thesis unfolding id by (simp only: if_False)
  qed
  have card3: "card V = 3" if "V \<in> {{0, 1, 2}, {0, 1, 3}, {0, 2, 3}, {1, 2, 3}}"
    using that c0 c1 c2 c3 by (elim insertE emptyE) (simp_all only:)
  have few: "identifyGhostFromEvidence ev = GH_UNKNOWN" if "card V < 3"
  proof -
    have "V \<notin> {{0, 1, 2}, {0, 1, 3}, {0, 2, 3}, {1, 2, 3}}"
      using card3 that by (metis less_irrefl)
    then show ?thesis by (intro none) (simp_all only: insert_iff de_Morgan_disj, simp_all only: simp_thms)
  qed
  have n4: "identifyGhostFromEvidence ev = GH_UNKNOWN"
    if "V \<notin> {{0, 1, 2}, {0, 1, 3}, {0, 2, 3}, {1, 2, 3}}"
    using that by (intro none) (simp_all only: insert_iff de_Morgan_disj, simp_all only: simp_thms)
  have V: "valid_kinds ev = V" by (simp add: V_def ev)
  show ?thesis
    unfolding V EMF_def TEMPERATURE_def FINGERPRINTS_def SOUND_def
    using p b u h few n4 by blast
qed

theorem identifyGhostFromEvidence_table_witness:
  "length [TEMPERATURE, EMF, SOUND] = 3
   \<and> valid_kinds [TEMPERATURE, EMF, SOUND] = {EMF, TEMPERATURE, SOUND}
   \<and> identifyGhostFromEvidence [TEMPERATURE, EMF, SOUND] = BANSHEE"
proof -
  have v: "valid_kinds [TEMPERATURE, EMF, SOUND] = {EMF, TEMPERATURE, SOUND}"
    by (auto simp: valid_kinds_def)
  show ?thesis using identifyGhostFromEvidence_table [of "[TEMPERATURE, EMF, SOUND]"] v by simp
qed

section \<open>The index of the room to move to\<close>

lemma walk_drop:
  "i \<le> index \<Longrightarrow> nat (index - i) \<le> length nodes \<Longrightarrow> walk nodes i index = drop (nat (index - i)) nodes"
proof (induction nodes arbitrary: i)
  case Nil
  then show ?case by simp
next
  case (Cons node nodes)
  show ?case
  proof (cases "i < index")
    case True
    then have "nat (index - i) = Suc (nat (index - (i + 1)))" by simp
    moreover have "walk nodes (i + 1) index = drop (nat (index - (i + 1))) nodes"
      using Cons.prems True by (intro Cons.IH) auto
    ultimately show ?thesis using True by simp
  next
    case False
    with Cons.prems show ?thesis by simp
  qed
qed

lemma getRoomAtIndex_nth:
  assumes "0 \<le> index" "index < int (length roomList)"
  shows "getRoomAtIndex roomList index = Some (roomList ! nat index)"
proof -
  have "walk roomList 0 index = drop (nat index) roomList"
    using walk_drop [of 0 index roomList] assms by simp
  moreover have "drop (nat index) roomList = roomList ! nat index # drop (Suc (nat index)) roomList"
    using assms by (intro Cons_nth_drop_Suc [symmetric]) simp
  ultimately show ?thesis by (simp add: getRoomAtIndex_def)
qed

lemma randInt_below:
  assumes "0 \<le> random" "random < 1" "0 < mx"
  shows "0 \<le> randInt 0 mx random \<and> randInt 0 mx random < mx"
proof -
  have nn: "0 \<le> random * of_int mx" using assms by simp
  have "random * of_int mx < 1 * of_int mx"
    using assms by (intro mult_strict_right_mono) simp_all
  then have lt: "random * of_int mx < of_int mx" by simp
  have "randInt 0 mx random = \<lfloor>random * of_int mx\<rfloor>"
    using nn by (simp add: randInt_def randFloat_def int_cast_def)
  moreover have "0 \<le> \<lfloor>random * of_int mx\<rfloor>" using nn by simp
  moreover have "\<lfloor>random * of_int mx\<rfloor> < mx" using lt by (simp add: floor_less_iff)
  ultimately show ?thesis by simp
qed

lemma randInt_unit:
  assumes "0 \<le> random" "random \<le> 1" "0 \<le> mx"
  shows "0 \<le> randInt 0 mx random \<and> randInt 0 mx random \<le> mx"
proof -
  have nn: "0 \<le> random * of_int mx" using assms by simp
  have "random * of_int mx \<le> 1 * of_int mx"
    using assms by (intro mult_right_mono) simp_all
  then have le: "random * of_int mx \<le> of_int mx" by simp
  have "randInt 0 mx random = \<lfloor>random * of_int mx\<rfloor>"
    using nn by (simp add: randInt_def randFloat_def int_cast_def)
  moreover have "0 \<le> \<lfloor>random * of_int mx\<rfloor>" using nn by simp
  moreover have "\<lfloor>random * of_int mx\<rfloor> \<le> mx" using le by (simp add: floor_le_iff)
  ultimately show ?thesis by simp
qed

text \<open>
  Claim C4 says that a move picks its index uniformly in \<open>0 .. n - 1\<close> for a room with
  \<open>n\<close> neighbours, so that every neighbour, the last one included, can be chosen.
  \<open>getRandomRoomIndex\<close> and \<open>moveToRandomRoomGhost\<close> call \<open>randInt(0, n - 1)\<close>, and
  \<open>randInt\<close> truncates a number of the interval from \<open>min\<close> to \<open>max\<close>, which is \<open>max\<close>
  only for the draw 1. So in a room with at least 2 different neighbours, every draw
  below 1 gives an index of at most \<open>n - 2\<close>: neither \<open>getRoomAtIndex\<close> (the hunters'
  move) nor the ghost's move reaches the last neighbour of the list.
\<close>

theorem relocation_skips_last_neighbour:
  assumes "0 \<le> random" "random < 1" "2 \<le> length roomList" "distinct roomList"
  shows "0 \<le> getRandomRoomIndex (int (length roomList)) random
       \<and> getRandomRoomIndex (int (length roomList)) random < int (length roomList) - 1
       \<and> getRoomAtIndex roomList (getRandomRoomIndex (int (length roomList)) random)
            \<noteq> Some (last roomList)
       \<and> (room_g g = Some r \<and> roomlist (rms r) = Some roomList
            \<longrightarrow> room_g (fst (moveToRandomRoomGhost g rms random)) \<noteq> Some (last roomList))"
proof -
  define n where "n = int (length roomList)"
  define k where "k = getRandomRoomIndex n random"
  have k: "0 \<le> k \<and> k < n - 1"
    unfolding k_def getRandomRoomIndex_def using assms
    by (intro randInt_below) (simp_all add: n_def)
  then have kn: "nat k < length roomList - 1" unfolding n_def by linarith
  have "last roomList = roomList ! (length roomList - 1)"
    using assms by (intro last_conv_nth) auto
  moreover have "roomList ! nat k \<noteq> roomList ! (length roomList - 1)"
    using kn assms by (simp add: nth_eq_iff_index_eq)
  ultimately have ne: "roomList ! nat k \<noteq> last roomList" by simp
  have get: "getRoomAtIndex roomList k = Some (roomList ! nat k)"
    using k by (intro getRoomAtIndex_nth) (simp_all add: n_def)
  have w: "walk roomList 0 k = roomList ! nat k # drop (Suc (nat k)) roomList"
    using walk_drop [of 0 k roomList] k kn by (simp add: Cons_nth_drop_Suc n_def)
  have "room_g (fst (moveToRandomRoomGhost g rms random)) = Some (roomList ! nat k)"
    if "room_g g = Some r" "roomlist (rms r) = Some roomList"
    using that w
    by (simp add: moveToRandomRoomGhost_def k_def n_def getRandomRoomIndex_def)
  with k get ne show ?thesis unfolding k_def n_def by auto
qed

theorem relocation_skips_last_neighbour_witness:
  "(0::rat) \<le> 3/4 \<and> (3/4::rat) < 1 \<and> distinct [1::nat, 2, 3]
   \<and> getRandomRoomIndex 3 (3/4) = 1
   \<and> getRoomAtIndex [1, 2, 3] (getRandomRoomIndex 3 (3/4)) = Some 2"
proof -
  have "getRandomRoomIndex 3 (3/4) = 1"
    by (simp add: getRandomRoomIndex_def randInt_def randFloat_def int_cast_def floor_eq_iff)
  then show ?thesis
    using relocation_skips_last_neighbour [of "3/4" "[1, 2, 3]"] by (simp add: getRoomAtIndex_def)
qed

section \<open>A hunter that retires\<close>

lemma updateHunterState_exit:
  assumes "(room (hunter_at w i) = room_g (ghost w) \<and> fear (hunter_at w i) \<ge> FEAR_MAX - 1)
         \<or> (room (hunter_at w i) \<noteq> room_g (ghost w)
              \<and> (fear (hunter_at w i) \<ge> FEAR_MAX \<or> boredom (hunter_at w i) \<ge> BOREDOM_MAX - 1))"
  shows "\<exists>h1. (fear h1 \<ge> FEAR_MAX \<or> boredom h1 \<ge> BOREDOM_MAX)
           \<and> name h1 = name (hunter_at w i) \<and> room h1 = room (hunter_at w i)
           \<and> equipment h1 = equipment (hunter_at w i)
           \<and> updateHunterState i rnd w =
               (let w1 = set_hunter i h1 w;
                    w2 = print (logHunterExit h1) w1;
                    hs = decrementHunterCount (house w2)
                in (print (snd hs) (w2\<lparr>house := fst hs\<rparr>), Thread_exited, rnd))"
proof -
  define h where "h = hunter_at w i"
  define h1 where "h1 = (if isGhostPresent (ghost w) h \<noteq> 0 then
                  h\<lparr>fear := (if fear h < FEAR_MAX then fear h + 1 else FEAR_MAX), boredom := 0\<rparr>
                else
                  h\<lparr>boredom := (if boredom h < BOREDOM_MAX then boredom h + 1 else BOREDOM_MAX)\<rparr>)"
  have ex: "fear h1 \<ge> FEAR_MAX \<or> boredom h1 \<ge> BOREDOM_MAX"
    using assms unfolding h1_def h_def [symmetric] isGhostPresent_def by auto
  have same: "name h1 = name h" "room h1 = room h" "equipment h1 = equipment h"
    by (simp_all add: h1_def)
  have "updateHunterState i rnd w =
               (let w1 = set_hunter i h1 w;
                    w2 = print (logHunterExit h1) w1;
                    hs = decrementHunterCount (house w2)
                in (print (snd hs) (w2\<lparr>house := fst hs\<rparr>), Thread_exited, rnd))"
    using ex unfolding updateHunterState_def h_def [symmetric] Let_def h1_def [symmetric]
    by (simp add: case_prod_beta)
  with ex same show ?thesis unfolding h_def by blast
qed

text \<open>
  Claim C5 says that the update of a hunter whose fear or boredom reaches its maximum
  removes the hunter from the roster of its current room. In \<open>haunted_world\<close> hunter A
  (index 0, fear 9) shares the hallway with the ghost: the update raises the fear to
  \<open>FEAR_MAX\<close> and ends the thread, the hunter's room is still the hallway, and the
  roster of the hallway still holds a hunter named A.
\<close>

theorem updateHunterState_keeps_roster_counterexample:
  "fst (snd (updateHunterState 0 (sconst 0) haunted_world)) = Thread_exited
   \<and> fear (hunter_at (fst (updateHunterState 0 (sconst 0) haunted_world)) 0) = FEAR_MAX
   \<and> room (hunter_at (fst (updateHunterState 0 (sconst 0) haunted_world)) 0) = Some 1
   \<and> ''A'' \<in> set (map name (hunter (hunterArray_r
         (heap (fst (updateHunterState 0 (sconst 0) haunted_world)) 1))))"
  by (simp add: updateHunterState_def haunted_world_def hunter_at_def set_hunter_def
      isGhostPresent_def print_def logHunterExit_def decrementHunterCount_def hallway_def)

text \<open>
  Claim C5, amended. On a tick in which the fear of hunter \<open>i\<close> reaches \<open>FEAR_MAX\<close> (it
  shares the room of the ghost with a fear of at least \<open>FEAR_MAX - 1\<close>) or its boredom
  reaches \<open>BOREDOM_MAX\<close> (it does not, with a boredom of at least \<open>BOREDOM_MAX - 1\<close>, or a
  fear already at \<open>FEAR_MAX\<close>), \<open>updateHunterState\<close> prints the exit line of the hunter,
  takes one from the counter of the house when the counter is positive (and prints a
  warning otherwise), and ends the thread, hence the loop (the rest of the loop body of
  \<open>hunterBehaviour\<close> is not run), without any action: no draw
  is taken, the hunter stays in its room, the evidence array, the ghost, the flag and
  the other hunters are as before. No room changes: the rosters are as before, and the
  hunter is not removed from the roster of its room.
\<close>

theorem updateHunterState_retires_without_acting:
  assumes "i < length (hunter (hunterArray (house w)))"
    and "(room (hunter_at w i) = room_g (ghost w) \<and> fear (hunter_at w i) \<ge> FEAR_MAX - 1)
         \<or> (room (hunter_at w i) \<noteq> room_g (ghost w)
              \<and> (fear (hunter_at w i) \<ge> FEAR_MAX \<or> boredom (hunter_at w i) \<ge> BOREDOM_MAX - 1))"
  shows "(case updateHunterState i rnd w of (w', fl, rnd') \<Rightarrow>
       (fear (hunter_at w' i) \<ge> FEAR_MAX \<or> boredom (hunter_at w' i) \<ge> BOREDOM_MAX)
     \<and> fl = Thread_exited \<and> rnd' = rnd
     \<and> printed w' = printed w @ [Out_hunter_exited (name (hunter_at w i))]
                      @ (if hunterCount (house w) > 0 then [] else [Warn_decrement_below_zero])
     \<and> hunterCount (house w') =
         (if hunterCount (house w) > 0 then hunterCount (house w) - 1 else hunterCount (house w))
     \<and> heap w' = heap w
     \<and> evidenceArray (house w') = evidenceArray (house w)
     \<and> ghost w' = ghost w \<and> gameOver w' = gameOver w
     \<and> room (hunter_at w' i) = room (hunter_at w i)
     \<and> (\<forall>j. j \<noteq> i \<longrightarrow> hunter_at w' j = hunter_at w j))
   \<and> hunterBehaviour_body i rnd w = updateHunterState i rnd w"
proof -
  from updateHunterState_exit [OF assms(2), of rnd] obtain h1
    where ex: "fear h1 \<ge> FEAR_MAX \<or> boredom h1 \<ge> BOREDOM_MAX"
      and nm: "name h1 = name (hunter_at w i)" and rm: "room h1 = room (hunter_at w i)"
      and eq: "updateHunterState i rnd w =
               (let w1 = set_hunter i h1 w;
                    w2 = print (logHunterExit h1) w1;
                    hs = decrementHunterCount (house w2)
                in (print (snd hs) (w2\<lparr>house := fst hs\<rparr>), Thread_exited, rnd))"
    by blast
  have "fst (snd (updateHunterState i rnd w)) = Thread_exited"
    unfolding eq Let_def by simp
  then have body: "hunterBehaviour_body i rnd w = updateHunterState i rnd w"
    unfolding hunterBehaviour_body_def by (cases "updateHunterState i rnd w") simp
  have "(case updateHunterState i rnd w of (w', fl, rnd') \<Rightarrow>
       (fear (hunter_at w' i) \<ge> FEAR_MAX \<or> boredom (hunter_at w' i) \<ge> BOREDOM_MAX)
     \<and> fl = Thread_exited \<and> rnd' = rnd
     \<and> printed w' = printed w @ [Out_hunter_exited (name (hunter_at w i))]
                      @ (if hunterCount (house w) > 0 then [] else [Warn_decrement_below_zero])
     \<and> hunterCount (house w') =
         (if hunterCount (house w) > 0 then hunterCount (house w) - 1 else hunterCount (house w))
     \<and> heap w' = heap w
     \<and> evidenceArray (house w') = evidenceArray (house w)
     \<and> ghost w' = ghost w \<and> gameOver w' = gameOver w
     \<and> room (hunter_at w' i) = room (hunter_at w i)
     \<and> (\<forall>j. j \<noteq> i \<longrightarrow> hunter_at w' j = hunter_at w j))"
    unfolding eq Let_def using ex nm rm assms(1)
    by (simp add: set_hunter_def print_def logHunterExit_def decrementHunterCount_def hunter_at_def)
  with body show ?thesis by simp
qed

theorem updateHunterState_retires_without_acting_witness:
  "0 < length (hunter (hunterArray (house haunted_world)))
   \<and> room (hunter_at haunted_world 0) = room_g (ghost haunted_world)
   \<and> fear (hunter_at haunted_world 0) \<ge> FEAR_MAX - 1
   \<and> fst (snd (updateHunterState 0 (sconst 0) haunted_world)) = Thread_exited
   \<and> hunterCount (house (fst (updateHunterState 0 (sconst 0) haunted_world))) = 3
   \<and> heap (fst (updateHunterState 0 (sconst 0) haunted_world)) = heap haunted_world"
proof -
  have a: "0 < length (hunter (hunterArray (house haunted_world)))"
    and b: "room (hunter_at haunted_world 0) = room_g (ghost haunted_world)"
    and c: "fear (hunter_at haunted_world 0) \<ge> FEAR_MAX - 1"
    and d: "hunterCount (house haunted_world) = 4"
    by (simp_all add: haunted_world_def hunter_at_def)
  from updateHunterState_retires_without_acting [of 0 haunted_world "sconst 0"] a b c d show ?thesis
    by (simp add: case_prod_beta)
qed

section \<open>The verdict\<close>

lemma fear_loop_count:
  "fst (fear_loop hs c) = c + int (length (filter (\<lambda>h. fear h \<ge> 100) hs))"
  by (induction hs arbitrary: c) (simp_all add: case_prod_beta)

lemma boredom_loop_count:
  "fst (boredom_loop hs c) = c + int (length (filter (\<lambda>h. boredom h \<ge> 100) hs))"
  by (induction hs arbitrary: c) (simp_all add: case_prod_beta)

lemma evaluateGameOutcome_verdict:
  "last (evaluateGameOutcome hs g) =
     (if hunter (hunterArray hs) = []
         \<or> int (length (filter (\<lambda>h. fear h \<ge> 100) (hunter (hunterArray hs)))) = NUM_HUNTERS
         \<or> int (length (filter (\<lambda>h. boredom h \<ge> 100) (hunter (hunterArray hs)))) = NUM_HUNTERS
      then Out_ghost_won
      else if size_ea (evidenceArray hs) = 3 \<and> boredomTime g < 100 then Out_hunters_won
      else Out_ghost_left)"
  using fear_loop_count [of "hunter (hunterArray hs)" 0]
        boredom_loop_count [of "hunter (hunterArray hs)" 0]
  by (simp add: evaluateGameOutcome_def size_ha_def case_prod_beta Let_def)

text \<open>
  Claim C6 says that the verdict is the line of the ghost's win exactly when every
  hunter's fear is at \<open>FEAR_MAX\<close> or boredom at \<open>BOREDOM_MAX\<close>. \<open>evaluateGameOutcome\<close>
  counts the hunters whose fear is at least 100, while \<open>FEAR_MAX\<close> is 10 and
  \<open>updateHunterState\<close> never lets the fear exceed it. With four hunters whose fear is
  \<open>FEAR_MAX\<close>, an empty evidence array and a ghost that is not bored, it prints the line
  that the ghost got bored and left.
\<close>

theorem evaluateGameOutcome_fear_maxed_hunters:
  "evaluateGameOutcome
     \<lparr>rooms = [0, 1],
      hunterArray =
        \<lparr>hunter = [\<lparr>name = ''A'', equipment = EMF, fear = FEAR_MAX, boredom = 0, room = Some 1\<rparr>,
                   \<lparr>name = ''B'', equipment = TEMPERATURE, fear = FEAR_MAX, boredom = 0, room = Some 1\<rparr>,
                   \<lparr>name = ''C'', equipment = FINGERPRINTS, fear = FEAR_MAX, boredom = 0, room = Some 1\<rparr>,
                   \<lparr>name = ''D'', equipment = SOUND, fear = FEAR_MAX, boredom = 0, room = Some 1\<rparr>],
         capacity_ha = 4\<rparr>,
      evidenceArray = \<lparr>evidence = [0, 0, 0], size_ea = 0, capacity_ea = 3\<rparr>,
      hunterCount = 0\<rparr>
     \<lparr>room_g = Some 1, ghostType = BANSHEE, boredomTime = 0\<rparr>
   = [Out_banner,
      Out_fear_level ''A'' 10, Out_fear_level ''B'' 10, Out_fear_level ''C'' 10, Out_fear_level ''D'' 10,
      Out_boredom_level ''A'' 0, Out_boredom_level ''B'' 0, Out_boredom_level ''C'' 0,
      Out_boredom_level ''D'' 0,
      Out_ghost_boredom 0, Out_not_enough_evidence, Out_ghost_left]"
  by (simp add: evaluateGameOutcome_def size_ha_def reviewEv_def)

section \<open>Assigning the equipment\<close>

lemma randInt_0_3_0: "randInt 0 3 0 = 0"
  by (simp add: randInt_def randFloat_def int_cast_def)

lemma randInt_0_3_half: "randInt 0 3 (1/2) = 1"
  by (simp add: randInt_def randFloat_def int_cast_def floor_eq_iff)

lemma randInt_0_3_three_quarters: "randInt 0 3 (3/4) = 2"
  by (simp add: randInt_def randFloat_def int_cast_def floor_eq_iff)

lemma randInt_0_3_1: "randInt 0 3 1 = 3"
  by (simp add: randInt_def randFloat_def int_cast_def)

lemma loop_stuck:
  assumes "assignRandomEquipment_loop i n a hs s = Some y"
  shows "\<not> (i = 1 \<and> n = 4 \<and> a = [1, 0, 0, 0] \<and> s = sconst 0)"
proof (rule assignRandomEquipment_loop.raw_induct
    [where P = "\<lambda>i n a hs s y. \<not> (i = 1 \<and> n = 4 \<and> a = [1, 0, 0, 0] \<and> s = sconst 0)", OF _ assms])
  fix f :: "int \<Rightarrow> int \<Rightarrow> int list \<Rightarrow> Hunter list \<Rightarrow> rat stream \<Rightarrow> (Hunter list \<times> rat stream) option"
    and i n a hs s y
  assume IH: "\<And>i n a hs s y. f i n a hs s = Some y
                \<Longrightarrow> \<not> (i = 1 \<and> n = 4 \<and> a = [1, 0, 0, 0] \<and> s = sconst 0)"
    and eq: "(if i < n then
               (if a ! nat (randInt 0 (EV_COUNT - 1) (shd s)) \<noteq> 0 then f i n a hs (stl s)
                else f (i + 1) n (a[nat (randInt 0 (EV_COUNT - 1) (shd s)) := 1])
                       (hs[nat i := (hs ! nat i)\<lparr>equipment := randInt 0 (EV_COUNT - 1) (shd s)\<rparr>])
                       (stl s))
              else Some (hs, s)) = Some y"
  show "\<not> (i = 1 \<and> n = 4 \<and> a = [1, 0, 0, 0] \<and> s = sconst 0)"
  proof
    assume st: "i = 1 \<and> n = 4 \<and> a = [1, 0, 0, 0] \<and> s = sconst 0"
    then have i: "i = 1" and n: "n = 4" and a: "a = [1, 0, 0, 0]" and s: "s = sconst 0"
      by simp_all
    from eq have "f 1 4 [1, 0, 0, 0] hs (sconst 0) = Some y"
      unfolding i n a s by (simp add: randInt_0_3_0)
    from IH [OF this] show False by simp
  qed
qed

lemma loop_diverges: "assignRandomEquipment_loop 1 4 [1, 0, 0, 0] hs (sconst 0) = None"
proof (cases "assignRandomEquipment_loop 1 4 [1, 0, 0, 0] hs (sconst 0)")
  case None
  then show ?thesis .
next
  case (Some y)
  from loop_stuck [OF this] show ?thesis by simp
qed

lemma assigned_ok_step:
  assumes ok: "assigned_ok i a hs" and i: "nat i < length hs"
    and idx: "0 \<le> idx" "idx \<le> 3" and free: "a ! nat idx = 0"
  shows "assigned_ok (i + 1) (a[nat idx := 1]) (hs[nat i := (hs ! nat i)\<lparr>equipment := idx\<rparr>])"
proof -
  define m where "m = nat i"
  define h where "h = (hs ! m)\<lparr>equipment := idx\<rparr>"
  from ok have i0: "0 \<le> i" and la: "length a = 4"
    and old: "\<And>j. j < m \<Longrightarrow> 0 \<le> equipment (hs ! j) \<and> equipment (hs ! j) \<le> 3
                      \<and> a ! nat (equipment (hs ! j)) \<noteq> 0"
    and dist: "distinct (map equipment (take m hs))"
    by (simp_all add: assigned_ok_def m_def)
  have suc: "nat (i + 1) = Suc m" using i0 by (simp add: m_def)
  have mlt: "m < length hs" using i by (simp add: m_def)
  have tk: "take (Suc m) (hs[m := h]) = take m hs @ [h]"
    using mlt by (simp add: take_Suc_conv_app_nth)
  have fresh: "idx \<notin> equipment ` set (take m hs)"
  proof
    assume "idx \<in> equipment ` set (take m hs)"
    then obtain x where x: "x \<in> set (take m hs)" "equipment x = idx" by auto
    then obtain j where j: "j < length (take m hs)" "take m hs ! j = x"
      by (auto simp: in_set_conv_nth)
    then have "j < m" "hs ! j = x" by simp_all
    with old [of j] x free show False by simp
  qed
  have nidx: "nat idx < length a" using idx la by linarith
  have new: "0 \<le> equipment (hs[m := h] ! j) \<and> equipment (hs[m := h] ! j) \<le> 3
               \<and> a[nat idx := 1] ! nat (equipment (hs[m := h] ! j)) \<noteq> 0" if "j < Suc m" for j
  proof (cases "j = m")
    case True
    then show ?thesis using mlt idx nidx by (simp add: h_def)
  next
    case False
    with that have jm: "j < m" by simp
    then have "hs[m := h] ! j = hs ! j" by simp
    moreover have "a[nat idx := 1] ! nat (equipment (hs ! j)) \<noteq> 0"
      using old [OF jm] nidx by (simp add: nth_list_update)
    ultimately show ?thesis using old [OF jm] by simp
  qed
  have "distinct (map equipment (take (Suc m) (hs[m := h])))"
    unfolding tk using dist fresh by (simp add: h_def)
  with new i0 mlt la show ?thesis
    unfolding assigned_ok_def suc m_def [symmetric] h_def [symmetric] by simp
qed

lemma only_equipment_differs_refl: "only_equipment_differs hs hs"
  by (simp add: only_equipment_differs_def)

lemma only_equipment_differs_step:
  assumes "only_equipment_differs (hs[m := (hs ! m)\<lparr>equipment := idx\<rparr>]) hs'"
  shows "only_equipment_differs hs hs'"
proof -
  have "hs' ! j = (hs ! j)\<lparr>equipment := equipment (hs' ! j)\<rparr>" if "j < length hs" for j
  proof -
    have "hs' ! j = (hs[m := (hs ! m)\<lparr>equipment := idx\<rparr>] ! j)\<lparr>equipment := equipment (hs' ! j)\<rparr>"
      using assms that by (simp add: only_equipment_differs_def)
    then show ?thesis using that by (cases "j = m") simp_all
  qed
  with assms show ?thesis by (simp add: only_equipment_differs_def)
qed

lemma loop_correct:
  assumes "assignRandomEquipment_loop i n a hs s = Some y"
  shows "assigned_ok i a hs \<and> i \<le> n \<and> nat n \<le> length hs \<and> sset s \<subseteq> {0..1}
           \<longrightarrow> assigned_ok n (replicate 4 1) (fst y) \<and> only_equipment_differs hs (fst y)"
proof (rule assignRandomEquipment_loop.raw_induct
    [where P = "\<lambda>i n a hs s y. assigned_ok i a hs \<and> i \<le> n \<and> nat n \<le> length hs \<and> sset s \<subseteq> {0..1}
           \<longrightarrow> assigned_ok n (replicate 4 1) (fst y) \<and> only_equipment_differs hs (fst y)", OF _ assms])
  fix f :: "int \<Rightarrow> int \<Rightarrow> int list \<Rightarrow> Hunter list \<Rightarrow> rat stream \<Rightarrow> (Hunter list \<times> rat stream) option"
    and i n a hs s y
  assume IH: "\<And>i n a hs s y. f i n a hs s = Some y \<Longrightarrow>
         assigned_ok i a hs \<and> i \<le> n \<and> nat n \<le> length hs \<and> sset s \<subseteq> {0..1}
           \<longrightarrow> assigned_ok n (replicate 4 1) (fst y) \<and> only_equipment_differs hs (fst y)"
    and eq: "(if i < n then
               (if a ! nat (randInt 0 (EV_COUNT - 1) (shd s)) \<noteq> 0 then f i n a hs (stl s)
                else f (i + 1) n (a[nat (randInt 0 (EV_COUNT - 1) (shd s)) := 1])
                       (hs[nat i := (hs ! nat i)\<lparr>equipment := randInt 0 (EV_COUNT - 1) (shd s)\<rparr>])
                       (stl s))
              else Some (hs, s)) = Some y"
  show "assigned_ok i a hs \<and> i \<le> n \<and> nat n \<le> length hs \<and> sset s \<subseteq> {0..1}
           \<longrightarrow> assigned_ok n (replicate 4 1) (fst y) \<and> only_equipment_differs hs (fst y)"
  proof
    assume pre: "assigned_ok i a hs \<and> i \<le> n \<and> nat n \<le> length hs \<and> sset s \<subseteq> {0..1}"
    then have ok: "assigned_ok i a hs" and le: "i \<le> n" and len: "nat n \<le> length hs"
      and draws: "sset s \<subseteq> {0..1}" by simp_all
    define idx where "idx = randInt 0 (EV_COUNT - 1) (shd s)"
    have "shd s \<in> sset s" by (rule shd_sset)
    with draws have "0 \<le> shd s" "shd s \<le> 1" by auto
    then have idx: "0 \<le> idx" "idx \<le> 3"
      unfolding idx_def using randInt_unit [of "shd s" 3] by simp_all
    have tl: "sset (stl s) \<subseteq> {0..1}"
      using draws stl_sset [of _ s] by blast
    show "assigned_ok n (replicate 4 1) (fst y) \<and> only_equipment_differs hs (fst y)"
    proof (cases "i < n")
      case False
      with le eq have "i = n" "y = (hs, s)" by simp_all
      moreover have "assigned_ok i (replicate 4 1) hs"
        using ok by (auto simp: assigned_ok_def)
      ultimately show ?thesis by (simp add: only_equipment_differs_refl)
    next
      case True
      show ?thesis
      proof (cases "a ! nat idx \<noteq> 0")
        case taken: True
        with True eq have "f i n a hs (stl s) = Some y" by (simp add: idx_def)
        from IH [OF this] ok le len tl show ?thesis by simp
      next
        case free: False
        with True eq have call: "f (i + 1) n (a[nat idx := 1])
            (hs[nat i := (hs ! nat i)\<lparr>equipment := idx\<rparr>]) (stl s) = Some y"
          by (simp add: idx_def)
        have "0 \<le> i" using ok by (simp add: assigned_ok_def)
        then have ilt: "nat i < length hs" using True len by linarith
        have ok': "assigned_ok (i + 1) (a[nat idx := 1]) (hs[nat i := (hs ! nat i)\<lparr>equipment := idx\<rparr>])"
          using ok ilt idx free by (intro assigned_ok_step) simp_all
        from IH [OF call] ok' True len tl
        have "assigned_ok n (replicate 4 1) (fst y)
            \<and> only_equipment_differs (hs[nat i := (hs ! nat i)\<lparr>equipment := idx\<rparr>]) (fst y)"
          by simp
        then show ?thesis by (auto intro: only_equipment_differs_step)
      qed
    qed
  qed
qed

lemma unassigned_update:
  assumes "length a = 4" "k < 4"
  shows "unassigned (a[k := 1]) = unassigned a - {k}"
  using assms by (auto simp: unassigned_def nth_list_update)

lemma loop_terminates:
  assumes "length a = 4" "sset s \<subseteq> {0..1}" "n - i \<le> int (card (unassigned a))"
    and "\<forall>j \<in> unassigned a. \<exists>d \<in> set (stake k s). randInt 0 3 d = int j"
  shows "\<exists>y. assignRandomEquipment_loop i n a hs s = Some y"
  using assms
proof (induction k arbitrary: i a hs s)
  case 0
  then have "unassigned a = {}" by auto
  with 0 have "\<not> i < n" by simp
  then show ?case by (subst assignRandomEquipment_loop.simps) simp
next
  case (Suc k)
  show ?case
  proof (cases "i < n")
    case False
    then show ?thesis by (subst assignRandomEquipment_loop.simps) simp
  next
    case True
    define idx where "idx = randInt 0 3 (shd s)"
    have "shd s \<in> sset s" by (rule shd_sset)
    with Suc.prems(2) have "0 \<le> shd s" "shd s \<le> 1" by auto
    then have idx: "0 \<le> idx" "idx \<le> 3"
      unfolding idx_def using randInt_unit [of "shd s" 3] by simp_all
    then have nidx: "nat idx < 4" by linarith
    have tl: "sset (stl s) \<subseteq> {0..1}"
      using Suc.prems(2) stl_sset [of _ s] by blast
    have later: "\<exists>d \<in> set (stake k (stl s)). randInt 0 3 d = int j"
      if "j \<in> unassigned a" "j \<noteq> nat idx" for j
    proof -
      from Suc.prems(4) that(1) obtain d
        where d: "d \<in> set (stake (Suc k) s)" "randInt 0 3 d = int j" by blast
      have "d \<noteq> shd s"
      proof
        assume "d = shd s"
        with d have "idx = int j" by (simp add: idx_def)
        with that(2) show False by simp
      qed
      with d show ?thesis by auto
    qed
    show ?thesis
    proof (cases "a ! nat idx \<noteq> 0")
      case taken: True
      have "\<forall>j \<in> unassigned a. \<exists>d \<in> set (stake k (stl s)). randInt 0 3 d = int j"
      proof
        fix j assume j: "j \<in> unassigned a"
        with taken have "j \<noteq> nat idx" by (auto simp: unassigned_def)
        with j show "\<exists>d \<in> set (stake k (stl s)). randInt 0 3 d = int j" by (rule later)
      qed
      from Suc.IH [OF Suc.prems(1) tl Suc.prems(3) this]
      obtain y where "assignRandomEquipment_loop i n a hs (stl s) = Some y" by blast
      with True taken show ?thesis
        by (subst assignRandomEquipment_loop.simps) (simp add: idx_def)
    next
      case free: False
      then have mem: "nat idx \<in> unassigned a" using nidx by (simp add: unassigned_def)
      have un: "unassigned (a[nat idx := 1]) = unassigned a - {nat idx}"
        using Suc.prems(1) nidx by (rule unassigned_update)
      have fin: "finite (unassigned a)" by (simp add: unassigned_def)
      have "card (unassigned (a[nat idx := 1])) = card (unassigned a) - 1"
        unfolding un using mem fin by simp
      moreover have "0 < card (unassigned a)" using mem fin by (auto simp: card_gt_0_iff)
      ultimately have cnt: "n - (i + 1) \<le> int (card (unassigned (a[nat idx := 1])))"
        using Suc.prems(3) by linarith
      have len: "length (a[nat idx := 1]) = 4" using Suc.prems(1) by simp
      have "\<forall>j \<in> unassigned (a[nat idx := 1]). \<exists>d \<in> set (stake k (stl s)). randInt 0 3 d = int j"
        unfolding un using later by blast
      from Suc.IH [OF len tl cnt this]
      obtain y where "assignRandomEquipment_loop (i + 1) n (a[nat idx := 1])
          (hs[nat i := (hs ! nat i)\<lparr>equipment := idx\<rparr>]) (stl s) = Some y" by blast
      with True free show ?thesis
        by (subst assignRandomEquipment_loop.simps) (simp add: idx_def)
    qed
  qed
qed

text \<open>
  Claim C7 says that \<open>assignRandomEquipment\<close> with the 4 hunters terminates for every
  behaviour of the generator. With the generator whose every draw is 0, the first
  hunter gets index 0 and the loop of the second hunter draws index 0 for ever: the
  call never returns.
\<close>

theorem assignRandomEquipment_constant_draws_counterexample:
  "assignRandomEquipment four_hunters 4 (sconst 0) = None"
proof -
  have "assignRandomEquipment_loop 0 4 (replicate (nat EV_COUNT) 0) hs (sconst 0) = None" for hs
    by (subst assignRandomEquipment_loop.simps)
       (simp add: randInt_0_3_0 loop_diverges numeral_eq_Suc)
  then show ?thesis
    by (simp add: assignRandomEquipment_def size_ha_def four_hunters_def)
qed

text \<open>
  Claim C7, amended. \<open>assignRandomEquipment\<close> is called with 4 hunters and a generator
  whose draws lie between 0 and 1. If, among the first \<open>k\<close> draws for some \<open>k\<close>, there is
  for each of the four kinds a draw that selects it, the call returns. Whenever the call
  returns, it prints nothing, every hunter holds exactly one kind between \<open>EMF\<close> and
  \<open>SOUND\<close>, no two hunters hold the same kind, and the names are as before.
\<close>

theorem assignRandomEquipment_four_hunters:
  assumes "length (hunter hs) = 4" "sset rnd \<subseteq> {0..1}"
  shows "((\<forall>e \<in> {EMF, TEMPERATURE, FINGERPRINTS, SOUND}.
             \<exists>d \<in> set (stake k rnd). randInt 0 (EV_COUNT - 1) d = e)
           \<longrightarrow> (\<exists>r. assignRandomEquipment hs 4 rnd = Some r))
       \<and> (assignRandomEquipment hs 4 rnd = Some (hs', outs, rnd')
           \<longrightarrow> distinct (map equipment (hunter hs'))
               \<and> (\<forall>h \<in> set (hunter hs'). EMF \<le> equipment h \<and> equipment h \<le> SOUND)
               \<and> map name (hunter hs') = map name (hunter hs)
               \<and> outs = [])"
proof
  have un: "unassigned (replicate 4 0) = {0, 1, 2, 3}"
    by (auto simp: unassigned_def)
  show "(\<forall>e \<in> {EMF, TEMPERATURE, FINGERPRINTS, SOUND}.
             \<exists>d \<in> set (stake k rnd). randInt 0 (EV_COUNT - 1) d = e)
           \<longrightarrow> (\<exists>r. assignRandomEquipment hs 4 rnd = Some r)"
  proof
    assume all: "\<forall>e \<in> {EMF, TEMPERATURE, FINGERPRINTS, SOUND}.
             \<exists>d \<in> set (stake k rnd). randInt 0 (EV_COUNT - 1) d = e"
    have "\<forall>j \<in> unassigned (replicate 4 0). \<exists>d \<in> set (stake k rnd). randInt 0 3 d = int j"
      unfolding un using all by simp
    moreover have "4 - 0 \<le> int (card (unassigned (replicate 4 0)))"
      unfolding un by simp
    ultimately obtain y where "assignRandomEquipment_loop 0 4 (replicate 4 0) (hunter hs) rnd = Some y"
      using loop_terminates [of "replicate 4 0" rnd 4 0 k "hunter hs"] assms(2) by auto
    then show "\<exists>r. assignRandomEquipment hs 4 rnd = Some r"
      using assms(1) by (cases y) (simp add: assignRandomEquipment_def size_ha_def)
  qed
  show "assignRandomEquipment hs 4 rnd = Some (hs', outs, rnd')
           \<longrightarrow> distinct (map equipment (hunter hs'))
               \<and> (\<forall>h \<in> set (hunter hs'). EMF \<le> equipment h \<and> equipment h \<le> SOUND)
               \<and> map name (hunter hs') = map name (hunter hs)
               \<and> outs = []"
  proof
    assume res: "assignRandomEquipment hs 4 rnd = Some (hs', outs, rnd')"
    then obtain cells where loop: "assignRandomEquipment_loop 0 4 (replicate 4 0) (hunter hs) rnd = Some (cells, rnd')"
      and hs': "hs' = hs\<lparr>hunter := cells\<rparr>" and outs: "outs = []"
      using assms(1)
      by (auto simp: assignRandomEquipment_def size_ha_def split: option.splits)
    have "assigned_ok 0 (replicate 4 0) (hunter hs)"
      by (simp add: assigned_ok_def)
    with loop_correct [OF loop] assms
    have ok: "assigned_ok 4 (replicate 4 1) cells" and same: "only_equipment_differs (hunter hs) cells"
      by simp_all
    from same have len: "length cells = 4" using assms(1) by (simp add: only_equipment_differs_def)
    then have tk: "take (nat 4) cells = cells" by simp
    have dist: "distinct (map equipment cells)"
      using ok tk by (simp add: assigned_ok_def)
    have rng: "\<forall>h \<in> set cells. 0 \<le> equipment h \<and> equipment h \<le> 3"
    proof
      fix h assume "h \<in> set cells"
      then obtain j where "j < length cells" "cells ! j = h" by (auto simp: in_set_conv_nth)
      with ok len show "0 \<le> equipment h \<and> equipment h \<le> 3"
        by (auto simp: assigned_ok_def)
    qed
    have "map name cells = map name (hunter hs)"
    proof (rule nth_equalityI)
      show "length (map name cells) = length (map name (hunter hs))"
        using same by (simp add: only_equipment_differs_def)
      fix j assume "j < length (map name cells)"
      then have j: "j < length (hunter hs)" using same by (simp add: only_equipment_differs_def)
      with same have "cells ! j = (hunter hs ! j)\<lparr>equipment := equipment (cells ! j)\<rparr>"
        by (simp add: only_equipment_differs_def)
      then have "name (cells ! j) = name (hunter hs ! j)"
        by (metis Hunter.select_convs(1) Hunter.surjective Hunter.update_convs(2))
      with j same show "map name cells ! j = map name (hunter hs) ! j"
        by (simp add: only_equipment_differs_def)
    qed
    with dist rng outs show "distinct (map equipment (hunter hs'))
               \<and> (\<forall>h \<in> set (hunter hs'). EMF \<le> equipment h \<and> equipment h \<le> SOUND)
               \<and> map name (hunter hs') = map name (hunter hs)
               \<and> outs = []"
      by (simp add: hs')
  qed
qed

theorem assignRandomEquipment_four_hunters_witness:
  "length (hunter four_hunters) = 4
   \<and> sset (0 ## 1/2 ## 0 ## 3/4 ## 1 ## sconst 0) \<subseteq> {0..1::rat}
   \<and> assignRandomEquipment four_hunters 4 (0 ## 1/2 ## 0 ## 3/4 ## 1 ## sconst 0) \<noteq> None
   \<and> distinct (map equipment (hunter (fst (the
         (assignRandomEquipment four_hunters 4 (0 ## 1/2 ## 0 ## 3/4 ## 1 ## sconst 0))))))"
proof -
  define rnd :: "rat stream" where "rnd = 0 ## 1/2 ## 0 ## 3/4 ## 1 ## sconst 0"
  have a: "length (hunter four_hunters) = 4" by (simp add: four_hunters_def)
  have b: "sset rnd \<subseteq> {0..1}" by (simp add: rnd_def)
  have c: "\<forall>e \<in> {EMF, TEMPERATURE, FINGERPRINTS, SOUND}.
         \<exists>d \<in> set (stake 5 rnd). randInt 0 (EV_COUNT - 1) d = e"
    by (simp add: rnd_def numeral_eq_Suc randInt_0_3_0 [simplified numeral_eq_Suc]
        randInt_0_3_half [simplified numeral_eq_Suc]
        randInt_0_3_three_quarters [simplified numeral_eq_Suc]
        randInt_0_3_1 [simplified numeral_eq_Suc])
  from assignRandomEquipment_four_hunters [OF a b, of 5] c obtain r where r: "assignRandomEquipment four_hunters 4 rnd = Some r"
    by blast
  obtain hs' outs rnd' where r': "r = (hs', outs, rnd')" by (cases r)
  from assignRandomEquipment_four_hunters [OF a b, of 5 hs' outs rnd'] r r'
  have "distinct (map equipment (hunter hs'))" by simp
  with r r' a b show ?thesis unfolding rnd_def by simp
qed

section \<open>Reading the evidence of a room\<close>

lemma doesEvidenceExist_nodes_eq:
  "doesEvidenceExist_nodes nodes hunterEquipment
     = (if hunterEquipment \<in> set nodes then hunterEquipment else EV_UNKNOWN)"
  by (induction nodes) auto

lemma addEvidenceAndLog_heap: "heap (fst (snd (addEvidenceAndLog i ev w))) = heap w"
  by (simp add: addEvidenceAndLog_def print_def case_prod_beta Let_def split: option.splits)

lemma collectEvidenceIfNeeded_heap: "heap (fst (collectEvidenceIfNeeded i w)) = heap w"
proof -
  have "heap (fst (snd (addEvidenceAndLog i ev (print outs w)))) = heap w" for ev outs
    using addEvidenceAndLog_heap [of i ev "print outs w"] by (simp add: print_def)
  then show ?thesis
    by (simp add: collectEvidenceIfNeeded_def print_def case_prod_beta Let_def)
qed

text \<open>
  Claim C9. \<open>doesEvidenceExist\<close> only reads: the source has no store in it, and the
  model returns a value and no new heap. The action of a hunter that calls it,
  \<open>collectEvidenceIfNeeded\<close>, leaves every room as it was, its evidence list included,
  so the same query after the action returns what it returned before. For a room with
  an evidence list, the query returns the hunter's equipment when a node of the list
  equals it and \<open>EV_UNKNOWN\<close> otherwise, and prints nothing; for an equipment other than
  \<open>EV_UNKNOWN\<close>, it returns the equipment exactly when such a node is present.
\<close>

theorem doesEvidenceExist_reads_only:
  "heap (fst (collectEvidenceIfNeeded i w)) = heap w
   \<and> doesEvidenceExist (heap (fst (collectEvidenceIfNeeded i w))) rp hunterEquipment
       = doesEvidenceExist (heap w) rp hunterEquipment
   \<and> (evidencelist (rms r) = Some nodes \<longrightarrow>
        doesEvidenceExist rms (Some r) hunterEquipment
          = (if hunterEquipment \<in> set nodes then hunterEquipment else EV_UNKNOWN, [])
        \<and> (hunterEquipment \<noteq> EV_UNKNOWN \<longrightarrow>
             (fst (doesEvidenceExist rms (Some r) hunterEquipment) = hunterEquipment
                \<longleftrightarrow> hunterEquipment \<in> set nodes)))"
  by (simp add: collectEvidenceIfNeeded_heap doesEvidenceExist_def doesEvidenceExist_nodes_eq)

theorem doesEvidenceExist_reads_only_witness:
  "evidencelist (heap haunted_world 1) = Some [EMF, SOUND]
   \<and> doesEvidenceExist (heap haunted_world) (Some 1) SOUND = (SOUND, [])
   \<and> doesEvidenceExist (heap haunted_world) (Some 1) TEMPERATURE = (EV_UNKNOWN, [])
   \<and> evidencelist (heap (fst (collectEvidenceIfNeeded 0 haunted_world)) 1) = Some [EMF, SOUND]"
proof -
  have a: "evidencelist (heap haunted_world 1) = Some [EMF, SOUND]"
    by (simp add: haunted_world_def hallway_def)
  from doesEvidenceExist_reads_only [of 0 haunted_world "Some 1" SOUND "heap haunted_world" 1 "[EMF, SOUND]"]
       doesEvidenceExist_reads_only [of 0 haunted_world "Some 1" TEMPERATURE "heap haunted_world" 1 "[EMF, SOUND]"] a
  show ?thesis by simp
qed

section \<open>The counter of active hunters\<close>

lemma decrement_times_nonneg:
  "0 \<le> hunterCount hs \<Longrightarrow> 0 \<le> hunterCount (decrementHunterCount_times n hs)"
  by (induction n arbitrary: hs) (simp_all add: decrementHunterCount_def)

lemma decrement_times_value:
  "0 \<le> hunterCount hs \<Longrightarrow>
     hunterCount (decrementHunterCount_times n hs) = max 0 (hunterCount hs - int n)"
proof (induction n arbitrary: hs)
  case 0
  then show ?case by simp
next
  case (Suc n)
  have "0 \<le> hunterCount (fst (decrementHunterCount hs))"
    using Suc.prems by (simp add: decrementHunterCount_def)
  from Suc.IH [OF this] Suc.prems show ?case
    by (auto simp: decrementHunterCount_def)
qed

text \<open>
  Claim C10. \<open>decrementHunterCount\<close> takes exactly one from a positive counter and prints
  nothing; at zero it leaves the house as it is and prints the warning. Starting from
  \<open>NUM_HUNTERS\<close>, the counter after any number \<open>n\<close> of calls is not negative: it is
  \<open>NUM_HUNTERS - n\<close>, or 0 once \<open>n\<close> exceeds \<open>NUM_HUNTERS\<close>.
\<close>

theorem hunterCount_never_negative:
  "(0 < hunterCount hs \<longrightarrow>
        decrementHunterCount hs = (hs\<lparr>hunterCount := hunterCount hs - 1\<rparr>, []))
   \<and> (hunterCount hs = 0 \<longrightarrow> decrementHunterCount hs = (hs, [Warn_decrement_below_zero]))
   \<and> (hunterCount hs = NUM_HUNTERS \<longrightarrow>
        0 \<le> hunterCount (decrementHunterCount_times n hs)
        \<and> hunterCount (decrementHunterCount_times n hs) = max 0 (NUM_HUNTERS - int n))"
proof (intro conjI impI)
  assume "hunterCount hs = NUM_HUNTERS"
  then have nn: "0 \<le> hunterCount hs" by simp
  show "0 \<le> hunterCount (decrementHunterCount_times n hs)"
    using nn by (rule decrement_times_nonneg)
  show "hunterCount (decrementHunterCount_times n hs) = max 0 (NUM_HUNTERS - int n)"
    using decrement_times_value [OF nn, of n] \<open>hunterCount hs = NUM_HUNTERS\<close> by simp
qed (simp_all add: decrementHunterCount_def)

theorem hunterCount_never_negative_witness:
  "hunterCount start_house = NUM_HUNTERS
   \<and> hunterCount (fst (decrementHunterCount start_house)) = 3
   \<and> hunterCount (decrementHunterCount_times 6 start_house) = 0
   \<and> snd (decrementHunterCount (decrementHunterCount_times 6 start_house)) = [Warn_decrement_below_zero]"
proof -
  have a: "hunterCount start_house = NUM_HUNTERS" by (simp add: start_house_def)
  have b: "hunterCount (decrementHunterCount_times 6 start_house) = 0"
    using hunterCount_never_negative [of start_house 6] a by simp
  from hunterCount_never_negative [of start_house 0] hunterCount_never_negative [of "decrementHunterCount_times 6 start_house" 0] a b
  show ?thesis by simp
qed

end
